theory Spec2Isabelle
  imports Complex_Main "HOL-Library.Sublist" "HOL-Library.Product_Lexorder"
begin

section \<open>Python values used by the backend\<close>

subsection \<open>Strings\<close>

text \<open>
  A Python \<open>str\<close> is a sequence of Unicode code points and \<open>len\<close> counts code points, so
  a string is modelled as a list of code points (natural numbers). \<open>u\<close> reads an ASCII
  literal.
\<close>

type_synonym codepoint = nat
type_synonym pystr = "codepoint list"

definition u :: "string \<Rightarrow> pystr" where
  "u s = map of_char s"

text \<open>\<open>str.__ge__\<close>: lexicographic comparison by code point.\<close>

fun str_ge :: "pystr \<Rightarrow> pystr \<Rightarrow> bool" where
  "str_ge xs [] = True"
| "str_ge [] (y # ys) = False"
| "str_ge (x # xs) (y # ys) = (x > y \<or> (x = y \<and> str_ge xs ys))"

text \<open>
  The white space of \<open>str.strip()\<close> and \<open>str.isspace()\<close>: the code points for which
  CPython's \<open>Py_UNICODE_ISSPACE\<close> holds.
\<close>

definition is_space :: "codepoint \<Rightarrow> bool" where
  "is_space c \<longleftrightarrow>
     (9 \<le> c \<and> c \<le> 13) \<or> (28 \<le> c \<and> c \<le> 32) \<or> c = 133 \<or> c = 160 \<or> c = 5760 \<or>
     (8192 \<le> c \<and> c \<le> 8202) \<or> c = 8232 \<or> c = 8233 \<or> c = 8239 \<or> c = 8287 \<or> c = 12288"

text \<open>\<open>s.strip(chars)\<close> removes the leading and the trailing characters that satisfy \<open>p\<close>.\<close>

definition strip_chars :: "(codepoint \<Rightarrow> bool) \<Rightarrow> pystr \<Rightarrow> pystr" where
  "strip_chars p s = rev (dropWhile p (rev (dropWhile p s)))"

definition strip :: "pystr \<Rightarrow> pystr" where
  "strip s = strip_chars is_space s"

text \<open>\<open>str(n)\<close> for an integer: decimal digits, with a minus sign for a negative number.\<close>

fun digits :: "nat \<Rightarrow> pystr" where
  "digits n = (if n < 10 then [48 + n] else digits (n div 10) @ [48 + n mod 10])"

declare digits.simps [simp del]

definition str_of_int :: "int \<Rightarrow> pystr" where
  "str_of_int i = (if i < 0 then 45 # digits (nat (- i)) else digits (nat i))"

text \<open>\<open>sep.join(parts)\<close>\<close>

fun join :: "pystr \<Rightarrow> pystr list \<Rightarrow> pystr" where
  "join sep [] = []"
| "join sep [x] = x"
| "join sep (x # y # ys) = x @ sep @ join sep (y # ys)"

text \<open>
  The parts of Python's library that rest on the tables of the Unicode database are
  parameters of the model: \<open>str.lower\<close>, the class \<open>\w\<close> of the module \<open>re\<close>, and \<open>repr\<close> of a
  list of strings. Every theorem about a function that takes a \<open>python_library\<close> holds for
  whatever these are. \<open>ascii_library\<close> is what they are on ASCII text without quotes and
  backslashes.
\<close>

record python_library =
  lower :: "pystr \<Rightarrow> pystr"
  upper :: "pystr \<Rightarrow> pystr"
  is_word :: "codepoint \<Rightarrow> bool"
  repr_list :: "pystr list \<Rightarrow> pystr"

definition ascii_lower :: "pystr \<Rightarrow> pystr" where
  "ascii_lower s = map (\<lambda>c. if 65 \<le> c \<and> c \<le> 90 then c + 32 else c) s"

definition ascii_upper :: "pystr \<Rightarrow> pystr" where
  "ascii_upper s = map (\<lambda>c. if 97 \<le> c \<and> c \<le> 122 then c - 32 else c) s"

definition ascii_is_word :: "codepoint \<Rightarrow> bool" where
  "ascii_is_word c \<longleftrightarrow>
     (48 \<le> c \<and> c \<le> 57) \<or> (65 \<le> c \<and> c \<le> 90) \<or> (97 \<le> c \<and> c \<le> 122) \<or> c = 95"

definition ascii_repr_list :: "pystr list \<Rightarrow> pystr" where
  "ascii_repr_list xs = u ''['' @ join (u '', '') (map (\<lambda>x. [39] @ x @ [39]) xs) @ u '']''"

definition ascii_library :: python_library where
  "ascii_library =
     \<lparr>lower = ascii_lower, upper = ascii_upper, is_word = ascii_is_word,
      repr_list = ascii_repr_list\<rparr>"

subsection \<open>Floating point\<close>

text \<open>
  A Python \<open>float\<close> is an IEEE 754 binary64 number. A finite one is modelled by its exact
  rational value; every operation computes the exact result and rounds it to the nearest
  binary64 number, ties to the even significand. \<open>bit_length\<close> is \<open>int.bit_length\<close>.
\<close>

fun bit_length :: "nat \<Rightarrow> nat" where
  "bit_length n = (if n = 0 then 0 else Suc (bit_length (n div 2)))"

declare bit_length.simps [simp del]

definition pow2 :: "int \<Rightarrow> rat" where
  "pow2 e = (if 0 \<le> e then 2 ^ nat e else 1 / 2 ^ nat (- e))"

text \<open>The binary exponent of a positive rational: \<open>pow2 (flog2 x) \<le> x < pow2 (flog2 x + 1)\<close>.\<close>

definition flog2 :: "rat \<Rightarrow> int" where
  "flog2 x =
     (let (p, q) = quotient_of x;
          d = int (bit_length (nat p)) - int (bit_length (nat q))
      in if pow2 d \<le> x then d else d - 1)"

definition round_half_even :: "rat \<Rightarrow> int" where
  "round_half_even x =
     (let f = \<lfloor>x\<rfloor>; d = x - of_int f
      in if d < 1 / 2 then f else if 1 / 2 < d then f + 1 else if even f then f else f + 1)"

text \<open>
  Rounding of an exact value to binary64 precision: 53 significant bits, the exponent not
  below that of the subnormal numbers. The result is not yet checked against the largest
  finite number.
\<close>

definition round_binary64 :: "rat \<Rightarrow> rat" where
  "round_binary64 x =
     (if x = 0 then 0
      else let e = max (flog2 \<bar>x\<bar>) (- 1022); ulp = pow2 (e - 52)
           in sgn x * of_int (round_half_even (\<bar>x\<bar> / ulp)) * ulp)"

text \<open>
  A float is finite, an infinity (\<open>True\<close> for the positive one) or not a number. The sign
  of a zero is not kept: no operation used here tells \<open>-0.0\<close> from \<open>0.0\<close>.
\<close>

datatype pyfloat = Finite rat | Infinity bool | NaN

definition overflows :: "rat \<Rightarrow> bool" where
  "overflows x \<longleftrightarrow> 2 ^ 1024 \<le> \<bar>x\<bar>"

text \<open>The float that an exact result is delivered as.\<close>

definition float_round :: "rat \<Rightarrow> pyfloat" where
  "float_round x =
     (let r = round_binary64 x in if overflows r then Infinity (0 < x) else Finite r)"

text \<open>
  The exceptions that the modelled code raises or receives. \<open>KeyError\<close> carries the
  key, \<open>ValueError\<close> and \<open>JSONDecodeError\<close> their message; \<open>OtherError\<close> is any further
  exception derived from \<open>Exception\<close>, with its message. \<open>CancelledError\<close> is
  \<open>asyncio.CancelledError\<close>, raised inside a task that is cancelled while it awaits; like
  \<open>KeyboardInterrupt\<close> and \<open>SystemExit\<close>, which \<open>OtherBaseException\<close> stands for, it derives
  from \<open>BaseException\<close> and not from \<open>Exception\<close>.
\<close>

datatype py_error =
    OverflowError
  | ZeroDivisionError
  | TypeError
  | KeyError pystr
  | ValueError pystr
  | JSONDecodeError pystr
  | JobNotFoundException
  | OtherError pystr
  | CancelledError
  | OtherBaseException pystr

text \<open>\<open>isinstance(e, Exception)\<close>: what a handler \<open>except Exception\<close> catches.\<close>

fun is_exception :: "py_error \<Rightarrow> bool" where
  "is_exception CancelledError = False"
| "is_exception (OtherBaseException m) = False"
| "is_exception e = True"

text \<open>\<open>float(n)\<close> for an integer \<open>n\<close>; raises OverflowError when the rounded value is out of range.\<close>

definition float_of_int :: "int \<Rightarrow> py_error + pyfloat" where
  "float_of_int n =
     (case float_round (of_int n) of
        Finite r \<Rightarrow> Inr (Finite r)
      | _ \<Rightarrow> Inl OverflowError)"

text \<open>
  \<open>float(n)\<close> for an integer that \<open>len\<close> returned or that is a sum of sizes of disjoint
  slices: such a number is below \<open>2 ^ 63\<close>, and the conversion does not raise.
\<close>

definition float_of_len :: "nat \<Rightarrow> pyfloat" where
  "float_of_len n = Finite (round_binary64 (of_nat n))"

text \<open>\<open>x * y\<close>, \<open>x + y\<close> and \<open>x / y\<close> on floats; an overflow gives an infinity.\<close>

fun float_mul :: "pyfloat \<Rightarrow> pyfloat \<Rightarrow> pyfloat" where
  "float_mul (Finite x) (Finite y) = float_round (x * y)"
| "float_mul (Finite x) (Infinity s) = (if x = 0 then NaN else Infinity (s = (0 < x)))"
| "float_mul (Infinity s) (Finite y) = (if y = 0 then NaN else Infinity (s = (0 < y)))"
| "float_mul (Infinity s) (Infinity t) = Infinity (s = t)"
| "float_mul NaN _ = NaN"
| "float_mul _ NaN = NaN"

fun float_add :: "pyfloat \<Rightarrow> pyfloat \<Rightarrow> pyfloat" where
  "float_add (Finite x) (Finite y) = float_round (x + y)"
| "float_add (Finite x) (Infinity s) = Infinity s"
| "float_add (Infinity s) (Finite y) = Infinity s"
| "float_add (Infinity s) (Infinity t) = (if s = t then Infinity s else NaN)"
| "float_add NaN _ = NaN"
| "float_add _ NaN = NaN"

fun float_truediv :: "pyfloat \<Rightarrow> pyfloat \<Rightarrow> py_error + pyfloat" where
  "float_truediv x (Finite y) =
     (if y = 0 then Inl ZeroDivisionError
      else case x of
             Finite x' \<Rightarrow> Inr (float_round (x' / y))
           | Infinity s \<Rightarrow> Inr (Infinity (s = (0 < y)))
           | NaN \<Rightarrow> Inr NaN)"
| "float_truediv (Finite x) (Infinity t) = Inr (Finite 0)"
| "float_truediv (Infinity s) (Infinity t) = Inr NaN"
| "float_truediv NaN (Infinity t) = Inr NaN"
| "float_truediv x NaN = Inr NaN"

text \<open>\<open>x >= y\<close> on floats; false when either side is not a number.\<close>

fun float_ge :: "pyfloat \<Rightarrow> pyfloat \<Rightarrow> bool" where
  "float_ge (Finite x) (Finite y) = (y \<le> x)"
| "float_ge (Finite x) (Infinity t) = (\<not> t)"
| "float_ge (Infinity s) (Finite y) = s"
| "float_ge (Infinity s) (Infinity t) = (s \<or> \<not> t)"
| "float_ge NaN _ = False"
| "float_ge _ NaN = False"

text \<open>
  \<open>int(x)\<close> for a float: truncation towards zero; an infinity raises OverflowError and a
  NaN raises ValueError.
\<close>

fun int_of_float :: "pyfloat \<Rightarrow> py_error + int" where
  "int_of_float (Finite x) = Inr (if 0 \<le> x then \<lfloor>x\<rfloor> else \<lceil>x\<rceil>)"
| "int_of_float (Infinity _) = Inl OverflowError"
| "int_of_float NaN = Inl (ValueError (u ''cannot convert float NaN to integer''))"

text \<open>\<open>m / n\<close> on integers that are counts: the exact quotient, rounded once.\<close>

definition int_truediv :: "nat \<Rightarrow> nat \<Rightarrow> py_error + pyfloat" where
  "int_truediv m n =
     (if n = 0 then Inl ZeroDivisionError else Inr (float_round (of_nat m / of_nat n)))"

text \<open>\<open>f"{x:.2f}"\<close>: the exact value rounded to two decimals, ties to even.\<close>

definition two_digits :: "nat \<Rightarrow> pystr" where
  "two_digits n = [48 + n div 10, 48 + n mod 10]"

fun format_2f :: "pyfloat \<Rightarrow> pystr" where
  "format_2f (Finite x) =
     (let n = nat (round_half_even (\<bar>x\<bar> * 100))
      in (if x < 0 then [45] else []) @ digits (n div 100) @ [46] @ two_digits (n mod 100))"
| "format_2f (Infinity s) = (if s then u ''inf'' else u ''-inf'')"
| "format_2f NaN = u ''nan''"

text \<open>The values of the float literals \<open>1.0\<close>, \<open>0.9\<close>, \<open>0.8\<close>, \<open>0.6\<close> and \<open>0.4\<close>.\<close>

definition float_1_0 :: rat where "float_1_0 = 1"
definition float_0_9 :: rat where "float_0_9 = 8106479329266893 / 2 ^ 53"
definition float_0_8 :: rat where "float_0_8 = 7205759403792794 / 2 ^ 53"
definition float_0_6 :: rat where "float_0_6 = 5404319552844595 / 2 ^ 53"
definition float_0_4 :: rat where "float_0_4 = 7205759403792794 / 2 ^ 54"

subsection \<open>Dynamic values\<close>

text \<open>
  Values of type \<open>Any\<close>: what \<open>json.loads\<close> returns and what the free-form fields of the
  models hold. A dictionary keeps its insertion order.
\<close>

datatype json =
    JNull
  | JBool bool
  | JInt int
  | JFloat rat
  | JStr pystr
  | JList "json list"
  | JDict "(pystr \<times> json) list"

type_synonym uuid = nat
type_synonym datetime = int

section \<open>models/enums.py\<close>

datatype TestPriority = CRITICAL | NORMAL | LOW

fun priority_value :: "TestPriority \<Rightarrow> pystr" where
  "priority_value CRITICAL = u ''CRITICAL''"
| "priority_value NORMAL = u ''NORMAL''"
| "priority_value LOW = u ''LOW''"

datatype TestType = MANUAL_UI | MANUAL_API | AUTOMATED_UI | AUTOMATED_API

fun test_type_value :: "TestType \<Rightarrow> pystr" where
  "test_type_value MANUAL_UI = u ''manual_ui''"
| "test_type_value MANUAL_API = u ''manual_api''"
| "test_type_value AUTOMATED_UI = u ''automated_ui''"
| "test_type_value AUTOMATED_API = u ''automated_api''"

datatype JobStatus = PENDING | PROCESSING | COMPLETED | FAILED | CANCELLED

section \<open>utils/helpers.py\<close>

definition base_times :: "(pystr \<times> int) list" where
  "base_times =
     [(u ''manual_ui'', 30), (u ''manual_api'', 25), (u ''auto_ui'', 45), (u ''auto_api'', 35)]"

definition base_time_of :: "pystr \<Rightarrow> int" where
  "base_time_of test_type = (case map_of base_times test_type of Some b \<Rightarrow> b | None \<Rightarrow> 30)"

definition multiplier_of :: "int \<Rightarrow> rat" where
  "multiplier_of testcases_count =
     (if testcases_count \<le> 10 then float_1_0
      else if testcases_count \<le> 30 then float_0_9
      else float_0_8)"

definition calculate_estimated_time :: "int \<Rightarrow> pystr \<Rightarrow> py_error + int" where
  "calculate_estimated_time testcases_count test_type =
     (let base_time = base_time_of test_type;
          multiplier = multiplier_of testcases_count
      in case float_of_int (base_time * testcases_count) of
           Inl e \<Rightarrow> Inl e
         | Inr product \<Rightarrow>
             (case int_of_float (float_mul product (Finite multiplier)) of
                Inl e \<Rightarrow> Inl e
              | Inr estimated \<Rightarrow> Inr (max 60 (min estimated 1800))))"

text \<open>
  The character class \<open>[<>:"/\\|?*]\<close> of both \<open>sanitize_filename\<close> functions; 34 is the
  double quote and 92 the backslash.
\<close>

definition forbidden_chars :: "codepoint list" where
  "forbidden_chars = u ''<>:'' @ [34] @ u ''/'' @ [92] @ u ''|?*''"

definition underscore :: codepoint where
  "underscore = 95"

text \<open>\<open>re.sub(r'[<>:"/\\|?*]', '_', s)\<close>\<close>

definition replace_forbidden :: "pystr \<Rightarrow> pystr" where
  "replace_forbidden s = map (\<lambda>c. if c \<in> set forbidden_chars then underscore else c) s"

text \<open>\<open>re.sub(r'_+', '_', s)\<close>: every maximal run of underscores becomes one underscore.\<close>

fun collapse_underscores :: "pystr \<Rightarrow> pystr" where
  "collapse_underscores (a # b # cs) =
     (if a = underscore \<and> b = underscore then collapse_underscores (b # cs)
      else a # collapse_underscores (b # cs))"
| "collapse_underscores cs = cs"

text \<open>The three steps that the two \<open>sanitize_filename\<close> functions share.\<close>

definition sanitize_core :: "pystr \<Rightarrow> pystr" where
  "sanitize_core filename =
     strip_chars (\<lambda>c. c = underscore) (collapse_underscores (replace_forbidden filename))"

text \<open>
  \<open>helpers.sanitize_filename\<close>. The default name reads the clock; \<open>now\<close> is the value of
  \<open>int(datetime.now().timestamp())\<close> at the call.
\<close>

definition helpers_sanitize_filename :: "int \<Rightarrow> pystr \<Rightarrow> pystr" where
  "helpers_sanitize_filename now filename =
     (let sanitized = sanitize_core filename
      in if sanitized = [] then u ''file_'' @ str_of_int now else sanitized)"

text \<open>
  The form of a sanitized name: not empty, free of the forbidden characters and of runs of
  underscores, with no underscore at either end.
\<close>

definition clean_name :: "pystr \<Rightarrow> bool" where
  "clean_name s \<longleftrightarrow> s \<noteq> [] \<and> set s \<inter> set forbidden_chars = {} \<and>
     \<not> sublist [underscore, underscore] s \<and> hd s \<noteq> underscore \<and> last s \<noteq> underscore"

text \<open>
  The multiplier of \<open>calculate_estimated_time\<close> in tenths, for stating its result in
  integer arithmetic.
\<close>

definition tier_tenths :: "int \<Rightarrow> int" where
  "tier_tenths testcases_count =
     (if testcases_count \<le> 10 then 10 else if testcases_count \<le> 30 then 9 else 8)"

text \<open>The largest finite binary64 number.\<close>

definition dbl_max :: rat where
  "dbl_max = of_int (2 ^ 53 - 1) * pow2 971"

section \<open>utils/validators.py\<close>

text \<open>
  The three messages of \<open>validate_requirements_text\<close> (in the source they are Russian
  sentences): the text must not be empty; the text is too short (at least 20 characters);
  the text is too long (at most 10000 characters).
\<close>

datatype requirements_message = EmptyText | TooShort | TooLong

definition validate_requirements_text :: "pystr \<Rightarrow> bool \<times> requirements_message option" where
  "validate_requirements_text text =
     (if text = [] \<or> strip text = [] then (False, Some EmptyText)
      else if length (strip text) < 20 then (False, Some TooShort)
      else if length text > 10000 then (False, Some TooLong)
      else (True, None))"

text \<open>\<open>validators.sanitize_filename\<close>\<close>

definition validators_sanitize_filename :: "pystr \<Rightarrow> pystr" where
  "validators_sanitize_filename filename =
     (let sanitized = sanitize_core filename;
          sanitized = (if sanitized = [] then u ''file'' else sanitized)
      in if \<not> suffix (u ''.py'') sanitized then sanitized @ u ''.py'' else sanitized)"

text \<open>A requirements text of twenty letters followed by 9981 spaces.\<close>

definition padded_requirements :: pystr where
  "padded_requirements = replicate 20 97 @ replicate 9981 32"

section \<open>models/dto.py\<close>

record TestCaseDTO =
  tc_id :: uuid
  title :: pystr
  feature :: pystr
  story :: pystr
  priority :: TestPriority
  steps :: "pystr list"
  expected_result :: pystr
  python_code :: pystr
  test_type :: TestType
  owner :: pystr
  tc_created_at :: datetime
  tc_updated_at :: "datetime option"

record JobResponse =
  job_id :: uuid
  status :: JobStatus
  message :: "pystr option"
  estimated_time :: "int option"
  created_at :: datetime
  updated_at :: "datetime option"
  job_testcases :: "json list"
  download_url :: "pystr option"
  metrics :: "(pystr \<times> json) list option"

section \<open>storage/job_storage.py\<close>

text \<open>
  The store is the dictionary \<open>_jobs\<close>, keyed by \<open>str(job_id)\<close>, which is one-to-one on
  UUIDs. The \<open>updates\<close> dictionary of \<open>update_job\<close> is given by the fields that the callers
  set. \<open>now\<close> is \<open>datetime.now()\<close> at the call.
\<close>

type_synonym job_store = "uuid \<rightharpoonup> JobResponse"

record job_updates =
  upd_status :: "JobStatus option"
  upd_message :: "pystr option"
  upd_testcases :: "json list option"

definition apply_updates :: "job_updates \<Rightarrow> JobResponse \<Rightarrow> JobResponse" where
  "apply_updates updates job =
     job\<lparr>status := (case upd_status updates of Some s \<Rightarrow> s | None \<Rightarrow> status job),
         message := (case upd_message updates of Some m \<Rightarrow> Some m | None \<Rightarrow> message job),
         job_testcases := (case upd_testcases updates of Some t \<Rightarrow> t | None \<Rightarrow> job_testcases job)\<rparr>"

definition update_job ::
  "datetime \<Rightarrow> uuid \<Rightarrow> job_updates \<Rightarrow> job_store \<Rightarrow> (py_error + JobResponse) \<times> job_store" where
  "update_job now jid updates store =
     (case store jid of
        None \<Rightarrow> (Inl JobNotFoundException, store)
      | Some job \<Rightarrow>
          (let updated_job = (apply_updates updates job)\<lparr>updated_at := Some now\<rparr>
           in (Inr updated_job, store(jid \<mapsto> updated_job))))"

definition update_job_status ::
  "datetime \<Rightarrow> uuid \<Rightarrow> JobStatus \<Rightarrow> pystr option \<Rightarrow> job_store
     \<Rightarrow> (py_error + JobResponse) \<times> job_store" where
  "update_job_status now jid new_status msg store =
     (let updates = \<lparr>upd_status = Some new_status,
                       upd_message = (case msg of Some m \<Rightarrow> if m \<noteq> [] then Some m else None
                                      | None \<Rightarrow> None),
                       upd_testcases = None\<rparr>
      in update_job now jid updates store)"

section \<open>services/job_manager.py\<close>

text \<open>
  The manager's state: the job store, the running tasks and the registered callbacks. A
  task is an opaque handle. What a task does when it is cancelled and awaited (its own
  status updates, its done-callback \<open>_cleanup_task\<close>, and how the \<open>await\<close> ends) is not
  code of \<open>cancel_job\<close>; it is the parameter \<open>cancel_and_await\<close>.
\<close>

type_synonym task = nat

record JobManager =
  job_storage :: job_store
  running_tasks :: "uuid \<rightharpoonup> task"
  task_callbacks :: "uuid \<rightharpoonup> nat list"

datatype await_result = AwaitReturned | AwaitCancelled | AwaitRaised py_error

definition cancel_job ::
  "(task \<Rightarrow> JobManager \<Rightarrow> await_result \<times> JobManager) \<Rightarrow> datetime \<Rightarrow> uuid \<Rightarrow> JobManager
     \<Rightarrow> (py_error + bool) \<times> JobManager" where
  "cancel_job cancel_and_await now jid self =
     (case running_tasks self jid of
        Some t \<Rightarrow>
          (case cancel_and_await t self of
             (AwaitRaised e, self1) \<Rightarrow> (Inl e, self1)
           | (_, self1) \<Rightarrow>
               (case update_job_status now jid FAILED (Some (u ''Job cancelled by user''))
                       (job_storage self1) of
                  (Inl e, store) \<Rightarrow> (Inl e, self1\<lparr>job_storage := store\<rparr>)
                | (Inr _, store) \<Rightarrow> (Inr True, self1\<lparr>job_storage := store\<rparr>)))
      | None \<Rightarrow> (Inr False, self))"

text \<open>A cooperative task: cancelled at once, its done-callback removes it from both maps.\<close>

definition cooperative_task :: "uuid \<Rightarrow> task \<Rightarrow> JobManager \<Rightarrow> await_result \<times> JobManager" where
  "cooperative_task jid t self =
     (AwaitCancelled,
      self\<lparr>running_tasks := (running_tasks self)(jid := None),
           task_callbacks := (task_callbacks self)(jid := None)\<rparr>)"

text \<open>A manager with one stored job, completed, and no running task.\<close>

definition finished_job :: JobResponse where
  "finished_job =
     \<lparr>job_id = 7, status = COMPLETED, message = Some (u ''Job completed successfully''),
      estimated_time = None, created_at = 100, updated_at = Some 200, job_testcases = [],
      download_url = None, metrics = Some []\<rparr>"

definition idle_manager :: JobManager where
  "idle_manager =
     \<lparr>job_storage = [7 \<mapsto> finished_job], running_tasks = Map.empty,
      task_callbacks = Map.empty\<rparr>"

section \<open>difflib.SequenceMatcher\<close>

text \<open>
  The standard library's \<open>SequenceMatcher(None, a, b)\<close> as the optimization agent uses it:
  no junk function, the automatic junk heuristic on. \<open>chain_b b\<close> is the dictionary
  \<open>b2j\<close> read with \<open>b2j.get(x, [])\<close>: the indices of \<open>x\<close> in \<open>b\<close>, ascending, and none for an
  element that the heuristic finds popular.
\<close>

definition chain_b :: "pystr \<Rightarrow> codepoint \<Rightarrow> nat list" where
  "chain_b b x =
     (let idxs = filter (\<lambda>j. b ! j = x) [0..<length b]; n = length b
      in if n \<ge> 200 \<and> length idxs > n div 100 + 1 then [] else idxs)"

text \<open>\<open>isbjunk\<close> is membership in \<open>bjunk\<close>, which is empty without a junk function.\<close>

definition isbjunk :: "codepoint \<Rightarrow> bool" where
  "isbjunk x = False"

type_synonym match = "nat \<times> nat \<times> nat"

text \<open>
  The inner loop of \<open>find_longest_match\<close> over the indices \<open>j\<close> of \<open>a[i]\<close> in \<open>b\<close>. The
  dictionary \<open>j2len\<close> never has the key \<open>-1\<close>, so \<open>j2len.get(j - 1, 0)\<close> is 0 for \<open>j = 0\<close>.
  In \<open>i - k + 1\<close> the run of length \<open>k\<close> ends at \<open>i\<close>, so \<open>k \<le> i + 1\<close>.
\<close>

fun flm_row ::
  "nat \<Rightarrow> nat \<Rightarrow> nat \<Rightarrow> (nat \<rightharpoonup> nat) \<Rightarrow> nat list \<Rightarrow> (nat \<rightharpoonup> nat) \<times> match
     \<Rightarrow> (nat \<rightharpoonup> nat) \<times> match" where
  "flm_row i blo bhi j2len [] st = st"
| "flm_row i blo bhi j2len (j # js) (newj2len, (besti, bestj, bestsize)) =
     (if j < blo then flm_row i blo bhi j2len js (newj2len, (besti, bestj, bestsize))
      else if j \<ge> bhi then (newj2len, (besti, bestj, bestsize))
      else
        let k = (if j = 0 then 0 else case j2len (j - 1) of None \<Rightarrow> 0 | Some v \<Rightarrow> v) + 1
        in if k > bestsize
           then flm_row i blo bhi j2len js (newj2len(j \<mapsto> k), (i + 1 - k, j + 1 - k, k))
           else flm_row i blo bhi j2len js (newj2len(j \<mapsto> k), (besti, bestj, bestsize)))"

text \<open>The outer loop, \<open>for i in range(alo, ahi)\<close>.\<close>

fun flm_rows ::
  "pystr \<Rightarrow> pystr \<Rightarrow> nat \<Rightarrow> nat \<Rightarrow> nat list \<Rightarrow> (nat \<rightharpoonup> nat) \<times> match
     \<Rightarrow> (nat \<rightharpoonup> nat) \<times> match" where
  "flm_rows a b blo bhi [] st = st"
| "flm_rows a b blo bhi (i # is) (j2len, best) =
     flm_rows a b blo bhi is (flm_row i blo bhi j2len (chain_b b (a ! i)) (Map.empty, best))"

text \<open>
  The four \<open>while\<close> loops that extend the block at its two ends, first over elements that
  are not junk and then over junk; \<open>ok\<close> is the test on \<open>b[bestj - 1]\<close> or \<open>b[bestj + bestsize]\<close>.
\<close>

fun extend_back :: "(codepoint \<Rightarrow> bool) \<Rightarrow> pystr \<Rightarrow> pystr \<Rightarrow> nat \<Rightarrow> nat \<Rightarrow> match \<Rightarrow> match" where
  "extend_back ok a b alo blo (besti, bestj, bestsize) =
     (if besti > alo \<and> bestj > blo \<and> ok (b ! (bestj - 1)) \<and> a ! (besti - 1) = b ! (bestj - 1)
      then extend_back ok a b alo blo (besti - 1, bestj - 1, bestsize + 1)
      else (besti, bestj, bestsize))"

function extend_forward ::
  "(codepoint \<Rightarrow> bool) \<Rightarrow> pystr \<Rightarrow> pystr \<Rightarrow> nat \<Rightarrow> nat \<Rightarrow> match \<Rightarrow> match" where
  "extend_forward ok a b ahi bhi (besti, bestj, bestsize) =
     (if besti + bestsize < ahi \<and> bestj + bestsize < bhi \<and> ok (b ! (bestj + bestsize))
         \<and> a ! (besti + bestsize) = b ! (bestj + bestsize)
      then extend_forward ok a b ahi bhi (besti, bestj, bestsize + 1)
      else (besti, bestj, bestsize))"
  by pat_completeness auto
termination
  by (relation "measure (\<lambda>(ok, a, b, ahi, bhi, besti, bestj, bestsize). ahi - (besti + bestsize))")
    auto

declare extend_back.simps [simp del] extend_forward.simps [simp del]

text \<open>
  \<open>find_longest_match(alo, ahi, blo, bhi)\<close>. It is called with \<open>ahi \<le> len(a)\<close> and
  \<open>bhi \<le> len(b)\<close> only, so that every index is in range.
\<close>

definition find_longest_match :: "pystr \<Rightarrow> pystr \<Rightarrow> nat \<Rightarrow> nat \<Rightarrow> nat \<Rightarrow> nat \<Rightarrow> match" where
  "find_longest_match a b alo ahi blo bhi =
     (let best = snd (flm_rows a b blo bhi [alo..<ahi] (Map.empty, (alo, blo, 0)));
          best = extend_back (\<lambda>x. \<not> isbjunk x) a b alo blo best;
          best = extend_forward (\<lambda>x. \<not> isbjunk x) a b ahi bhi best;
          best = extend_back isbjunk a b alo blo best;
          best = extend_forward isbjunk a b ahi bhi best
      in best)"

text \<open>
  What \<open>find_longest_match\<close> keeps true of its best block, and of a row of \<open>j2len\<close>;
  the loop below terminates because of it.
\<close>

definition good_match :: "nat \<Rightarrow> nat \<Rightarrow> nat \<Rightarrow> nat \<Rightarrow> match \<Rightarrow> bool" where
  "good_match alo ahi blo bhi m =
     (case m of (i, j, k) \<Rightarrow>
        (i = alo \<and> j = blo \<and> k = 0) \<or> (alo \<le> i \<and> i + k \<le> ahi \<and> blo \<le> j \<and> j + k \<le> bhi))"

definition row_ok :: "nat \<Rightarrow> nat \<Rightarrow> nat \<Rightarrow> (nat \<rightharpoonup> nat) \<Rightarrow> bool" where
  "row_ok alo blo i m = (\<forall>j v. m j = Some v \<longrightarrow> blo \<le> j \<and> v + alo \<le> i \<and> v + blo \<le> j + 1)"

text \<open>
  The \<open>while queue\<close> loop of \<open>get_matching_blocks\<close>. The head of the list is the end of
  Python's list: \<open>queue.pop()\<close> takes the head and \<open>queue.append\<close> puts a new head.
\<close>

function (sequential) match_loop ::
  "pystr \<Rightarrow> pystr \<Rightarrow> (nat \<times> nat \<times> nat \<times> nat) list \<Rightarrow> match list \<Rightarrow> match list" where
  "match_loop a b [] matching_blocks = matching_blocks"
| "match_loop a b ((alo, ahi, blo, bhi) # queue) matching_blocks =
     (case find_longest_match a b alo ahi blo bhi of
        (i, j, k) \<Rightarrow>
          if k \<noteq> 0 then
            match_loop a b
              ((if i + k < ahi \<and> j + k < bhi then [(i + k, ahi, j + k, bhi)] else [])
               @ (if alo < i \<and> blo < j then [(alo, i, blo, j)] else [])
               @ queue)
              (matching_blocks @ [(i, j, k)])
          else match_loop a b queue matching_blocks)"
  by pat_completeness auto

text \<open>The loop that merges adjacent blocks; the state is \<open>(i1, j1, k1)\<close>.\<close>

fun merge_adjacent :: "match \<Rightarrow> match list \<Rightarrow> match list \<Rightarrow> match list" where
  "merge_adjacent (i1, j1, k1) [] non_adjacent =
     (if k1 \<noteq> 0 then non_adjacent @ [(i1, j1, k1)] else non_adjacent)"
| "merge_adjacent (i1, j1, k1) ((i2, j2, k2) # rest) non_adjacent =
     (if i1 + k1 = i2 \<and> j1 + k1 = j2 then merge_adjacent (i1, j1, k1 + k2) rest non_adjacent
      else merge_adjacent (i2, j2, k2) rest
             (if k1 \<noteq> 0 then non_adjacent @ [(i1, j1, k1)] else non_adjacent))"

definition get_matching_blocks :: "pystr \<Rightarrow> pystr \<Rightarrow> match list" where
  "get_matching_blocks a b =
     (let la = length a; lb = length b;
          matching_blocks = sort (match_loop a b [(0, la, 0, lb)] [])
      in merge_adjacent (0, 0, 0) matching_blocks [] @ [(la, lb, 0)])"

text \<open>
  For the comparison of a string with itself: whether the element at a position is in
  \<open>b2j\<close>, the length of the stretch of such positions that ends at a position, and what
  the rows of \<open>j2len\<close> and the best block satisfy while \<open>find_longest_match\<close> runs.
\<close>

definition in_b2j :: "pystr \<Rightarrow> nat \<Rightarrow> bool" where
  "in_b2j a i = (chain_b a (a ! i) \<noteq> [])"

primrec stretch :: "pystr \<Rightarrow> nat \<Rightarrow> nat" where
  "stretch a 0 = (if in_b2j a 0 then 1 else 0)"
| "stretch a (Suc i) = (if in_b2j a (Suc i) then Suc (stretch a i) else 0)"

definition prev_row :: "pystr \<Rightarrow> nat \<Rightarrow> (nat \<rightharpoonup> nat) \<Rightarrow> bool" where
  "prev_row a i j2len =
     ((\<forall>j v. j2len j = Some v \<longrightarrow> 0 < i \<and> 1 \<le> v \<and> v \<le> stretch a (i - 1) \<and> v \<le> stretch a j)
      \<and> (0 < i \<and> in_b2j a (i - 1) \<longrightarrow> j2len (i - 1) = Some (stretch a (i - 1))))"

definition this_row :: "pystr \<Rightarrow> nat \<Rightarrow> nat list \<Rightarrow> (nat \<rightharpoonup> nat) \<times> match \<Rightarrow> bool" where
  "this_row a i todo st =
     (case st of (newj2len, (besti, bestj, bestsize)) \<Rightarrow>
        (\<forall>j v. newj2len j = Some v \<longrightarrow>
           1 \<le> v \<and> v \<le> stretch a i \<and> v \<le> stretch a j \<and> v \<le> bestsize)
        \<and> (in_b2j a i \<and> i \<notin> set todo \<longrightarrow> newj2len i = Some (stretch a i))
        \<and> besti = bestj
        \<and> (\<forall>i' < i. stretch a i' \<le> bestsize))"

text \<open>The size of a block, and the span of \<open>a\<close> and of \<open>b\<close> that a queue entry covers.\<close>

definition block_size :: "match \<Rightarrow> nat" where
  "block_size m = (case m of (i, j, k) \<Rightarrow> k)"

definition a_span :: "nat \<times> nat \<times> nat \<times> nat \<Rightarrow> nat" where
  "a_span q = (case q of (alo, ahi, blo, bhi) \<Rightarrow> ahi - alo)"

definition b_span :: "nat \<times> nat \<times> nat \<times> nat \<Rightarrow> nat" where
  "b_span q = (case q of (alo, ahi, blo, bhi) \<Rightarrow> bhi - blo)"

definition calculate_ratio :: "nat \<Rightarrow> nat \<Rightarrow> py_error + pyfloat" where
  "calculate_ratio matches len =
     (if len \<noteq> 0 then float_truediv (float_mul (Finite 2) (float_of_len matches)) (float_of_len len)
      else Inr (Finite 1))"

definition ratio :: "pystr \<Rightarrow> pystr \<Rightarrow> py_error + pyfloat" where
  "ratio a b =
     (let matches = sum_list (map (\<lambda>(i, j, k). k) (get_matching_blocks a b))
      in calculate_ratio matches (length a + length b))"

section \<open>agents/optimization_agent.py\<close>

record recommendation =
  rec_type :: pystr
  severity :: pystr
  rec_message :: pystr
  action :: pystr

text \<open>An entry of \<open>duplicates\<close>; the identifiers stand for their \<open>str\<close>.\<close>

record duplicate_entry =
  testcase1 :: uuid
  testcase2 :: uuid
  similarity_score :: pyfloat

record duplicates_result =
  duplicates :: "duplicate_entry list"
  threshold_used :: pyfloat
  dup_recommendations :: "recommendation list"

definition similarity :: "python_library \<Rightarrow> TestCaseDTO \<Rightarrow> TestCaseDTO \<Rightarrow> py_error + pyfloat" where
  "similarity py first second =
     (case ratio (lower py (title first)) (lower py (title second)) of
        Inl e \<Rightarrow> Inl e
      | Inr title_score \<Rightarrow>
          (case ratio (lower py (join (u '' '') (steps first)))
                      (lower py (join (u '' '') (steps second))) of
             Inl e \<Rightarrow> Inl e
           | Inr steps_score \<Rightarrow>
               Inr (float_add (float_mul title_score (Finite float_0_6))
                              (float_mul steps_score (Finite float_0_4)))))"

text \<open>
  The body of the inner loop of \<open>_find_duplicates\<close> for a pair at or above the threshold.
  \<open>keep is tc\<close> holds exactly when the comparison of the priority values chose \<open>tc\<close>: the
  other branch is taken only when the two values differ.
\<close>

definition duplicate_recommendation :: "TestCaseDTO \<Rightarrow> TestCaseDTO \<Rightarrow> pyfloat \<Rightarrow> recommendation" where
  "duplicate_recommendation tc other score =
     (let keep = (if str_ge (priority_value (priority tc)) (priority_value (priority other))
                  then tc else other);
          drop = (if str_ge (priority_value (priority tc)) (priority_value (priority other))
                  then other else tc)
      in \<lparr>rec_type = u ''duplicate'', severity = u ''medium'',
          rec_message = u ''Tests '' @ title tc @ u '' and '' @ title other
                          @ u '' look similar ('' @ format_2f score @ u '')'',
          action = u ''Keep '' @ title keep @ u '', review '' @ title drop
                     @ u '' for merge/removal''\<rparr>)"

fun find_duplicates_inner ::
  "python_library \<Rightarrow> pyfloat \<Rightarrow> TestCaseDTO \<Rightarrow> TestCaseDTO list
     \<Rightarrow> duplicate_entry list \<times> recommendation list
     \<Rightarrow> py_error + duplicate_entry list \<times> recommendation list" where
  "find_duplicates_inner py threshold tc [] acc = Inr acc"
| "find_duplicates_inner py threshold tc (other # rest) (dups, recs) =
     (case similarity py tc other of
        Inl e \<Rightarrow> Inl e
      | Inr score \<Rightarrow>
          if float_ge score threshold
          then find_duplicates_inner py threshold tc rest
                 (dups @ [\<lparr>testcase1 = tc_id tc, testcase2 = tc_id other, similarity_score = score\<rparr>],
                  recs @ [duplicate_recommendation tc other score])
          else find_duplicates_inner py threshold tc rest (dups, recs))"

fun find_duplicates_outer ::
  "python_library \<Rightarrow> pyfloat \<Rightarrow> TestCaseDTO list
     \<Rightarrow> duplicate_entry list \<times> recommendation list
     \<Rightarrow> py_error + duplicate_entry list \<times> recommendation list" where
  "find_duplicates_outer py threshold [] acc = Inr acc"
| "find_duplicates_outer py threshold (tc # rest) acc =
     (case find_duplicates_inner py threshold tc rest acc of
        Inl e \<Rightarrow> Inl e
      | Inr acc' \<Rightarrow> find_duplicates_outer py threshold rest acc')"

definition find_duplicates ::
  "python_library \<Rightarrow> TestCaseDTO list \<Rightarrow> pyfloat \<Rightarrow> py_error + duplicates_result" where
  "find_duplicates py testcases threshold =
     (case find_duplicates_outer py threshold testcases ([], []) of
        Inl e \<Rightarrow> Inl e
      | Inr (dups, recs) \<Rightarrow>
          Inr \<lparr>duplicates = dups, threshold_used = threshold, dup_recommendations = recs\<rparr>)"

text \<open>
  \<open>str.splitlines()\<close>: a line ends at a line boundary, \<open>\r\n\<close> is one boundary, and a
  boundary at the end of the text opens no further line. \<open>cur\<close> is the line being read.
\<close>

definition is_linebreak :: "codepoint \<Rightarrow> bool" where
  "is_linebreak c \<longleftrightarrow>
     (10 \<le> c \<and> c \<le> 13) \<or> (28 \<le> c \<and> c \<le> 30) \<or> c = 133 \<or> c = 8232 \<or> c = 8233"

fun splitlines_from :: "pystr \<Rightarrow> pystr \<Rightarrow> pystr list" where
  "splitlines_from cur [] = (if cur = [] then [] else [cur])"
| "splitlines_from cur [c] = (if is_linebreak c then [cur] else [cur @ [c]])"
| "splitlines_from cur (c # d # cs) =
     (if c = 13 \<and> d = 10 then cur # splitlines_from [] cs
      else if is_linebreak c then cur # splitlines_from [] (d # cs)
      else splitlines_from (cur @ [c]) (d # cs))"

definition splitlines :: "pystr \<Rightarrow> pystr list" where
  "splitlines s = splitlines_from [] s"

record coverage_entry =
  requirement :: pystr
  covered :: bool
  covering_testcases :: "uuid list"

record coverage_result =
  coverage :: "coverage_entry list"
  coverage_percent :: pyfloat
  cov_recommendations :: "recommendation list"

definition covers_requirement :: "python_library \<Rightarrow> TestCaseDTO \<Rightarrow> pystr \<Rightarrow> bool" where
  "covers_requirement py testcase req =
     (let text = join (u '' '') [title testcase, story testcase, join (u '' '') (steps testcase)]
      in sublist (lower py req) (lower py text))"

definition requirement_lines :: "pystr \<Rightarrow> pystr list" where
  "requirement_lines requirements_text =
     take 50 (map strip (filter (\<lambda>line. strip line \<noteq> [] \<and> length (strip line) > 8)
                           (splitlines requirements_text)))"

text \<open>The loop over the requirements, with the lists \<open>coverage\<close> and \<open>recommendations\<close>.\<close>

fun check_coverage_loop ::
  "python_library \<Rightarrow> TestCaseDTO list \<Rightarrow> pystr list
     \<Rightarrow> coverage_entry list \<times> recommendation list
     \<Rightarrow> coverage_entry list \<times> recommendation list" where
  "check_coverage_loop py testcases [] acc = acc"
| "check_coverage_loop py testcases (req # reqs) (cov, recs) =
     (let covered_by = map tc_id (filter (\<lambda>tc. covers_requirement py tc req) testcases);
          cov' = cov @ [\<lparr>requirement = req, covered = (covered_by \<noteq> []),
                          covering_testcases = covered_by\<rparr>];
          recs' = (if covered_by = []
                   then recs @ [\<lparr>rec_type = u ''coverage'', severity = u ''high'',
                                  rec_message = u ''Requirement not covered: '' @ take 80 req,
                                  action = u ''Create test case for this requirement''\<rparr>]
                   else recs)
      in check_coverage_loop py testcases reqs (cov', recs'))"

definition check_coverage ::
  "python_library \<Rightarrow> TestCaseDTO list \<Rightarrow> pystr \<Rightarrow> py_error + coverage_result" where
  "check_coverage py testcases requirements_text =
     (case check_coverage_loop py testcases (requirement_lines requirements_text) ([], []) of
        (cov, recs) \<Rightarrow>
          (case (if cov \<noteq> []
                 then (case int_truediv (length (filter covered cov)) (length cov) of
                         Inl e \<Rightarrow> Inl e
                       | Inr q \<Rightarrow> Inr (float_mul q (Finite 100)))
                 else Inr (Finite 0)) of
             Inl e \<Rightarrow> Inl e
           | Inr percent \<Rightarrow>
               Inr \<lparr>coverage = cov, coverage_percent = percent, cov_recommendations = recs\<rparr>))"

text \<open>What the coverage check records for one requirement line.\<close>

definition coverage_entry_of :: "python_library \<Rightarrow> TestCaseDTO list \<Rightarrow> pystr \<Rightarrow> coverage_entry" where
  "coverage_entry_of py testcases req =
     \<lparr>requirement = req,
      covered = (filter (\<lambda>tc. covers_requirement py tc req) testcases \<noteq> []),
      covering_testcases = map tc_id (filter (\<lambda>tc. covers_requirement py tc req) testcases)\<rparr>"

definition coverage_recommendation :: "pystr \<Rightarrow> recommendation" where
  "coverage_recommendation req =
     \<lparr>rec_type = u ''coverage'', severity = u ''high'',
      rec_message = u ''Requirement not covered: '' @ take 80 req,
      action = u ''Create test case for this requirement''\<rparr>"

text \<open>A test case that covers the first of two requirement lines.\<close>

definition login_case :: TestCaseDTO where
  "login_case =
     \<lparr>tc_id = 1, title = u ''Login works'', feature = u ''auth'', story = u ''sign in'',
      priority = NORMAL, steps = [u ''open page''], expected_result = u ''ok'',
      python_code = u ''pass'', test_type = MANUAL_UI, owner = u ''qa_team'',
      tc_created_at = 0, tc_updated_at = None\<rparr>"

definition two_requirements :: pystr where
  "two_requirements = u ''  login WORKS '' @ [10] @ u ''short'' @ [10] @ u ''export to csv''"

text \<open>Two test cases without steps whose titles are anagrams, and their lower-cased titles.\<close>

definition tide_case :: TestCaseDTO where
  "tide_case =
     \<lparr>tc_id = 2, title = u ''tide'', feature = u ''f'', story = u ''s'', priority = NORMAL,
      steps = [], expected_result = u ''ok'', python_code = u ''pass'', test_type = MANUAL_UI,
      owner = u ''qa_team'', tc_created_at = 0, tc_updated_at = None\<rparr>"

definition diet_case :: TestCaseDTO where
  "diet_case =
     \<lparr>tc_id = 3, title = u ''diet'', feature = u ''f'', story = u ''s'', priority = NORMAL,
      steps = [], expected_result = u ''ok'', python_code = u ''pass'', test_type = MANUAL_UI,
      owner = u ''qa_team'', tc_created_at = 0, tc_updated_at = None\<rparr>"

definition tide_upper_case :: TestCaseDTO where
  "tide_upper_case = tide_case\<lparr>tc_id := 4, title := u ''TIDE''\<rparr>"

text \<open>
  Two test cases with the same title up to case and the same steps, the first of
  priority CRITICAL and the second of priority NORMAL.
\<close>

definition critical_case :: TestCaseDTO where
  "critical_case =
     \<lparr>tc_id = 5, title = u ''Login'', feature = u ''auth'', story = u ''sign in'',
      priority = CRITICAL, steps = [u ''open page''], expected_result = u ''ok'',
      python_code = u ''pass'', test_type = MANUAL_UI, owner = u ''qa_team'',
      tc_created_at = 0, tc_updated_at = None\<rparr>"

definition normal_case :: TestCaseDTO where
  "normal_case = critical_case\<lparr>tc_id := 6, title := u ''login'', priority := NORMAL\<rparr>"

section \<open>agents/base_agent.py\<close>

text \<open>\<open>str.split()\<close>: the maximal stretches without white space; \<open>cur\<close> is the word being read.\<close>

fun split_from :: "pystr \<Rightarrow> pystr \<Rightarrow> pystr list" where
  "split_from cur [] = (if cur = [] then [] else [cur])"
| "split_from cur (c # cs) =
     (if is_space c then (if cur = [] then split_from [] cs else cur # split_from [] cs)
      else split_from (cur @ [c]) cs)"

definition split :: "pystr \<Rightarrow> pystr list" where
  "split s = split_from [] s"

text \<open>\<open>_to_test_name\<close>; the pattern \<open>[^\w\s]\<close> is removed.\<close>

definition to_test_name :: "python_library \<Rightarrow> pystr \<Rightarrow> pystr" where
  "to_test_name py text =
     (let clean = filter (\<lambda>c. is_word py c \<or> is_space c) (lower py text);
          words = split clean
      in u ''test_'' @ join (u ''_'') (take 6 words))"

text \<open>
  The \<open>error\<close> field of an agent's output is a literal message or \<open>str(exc)\<close> of a caught
  exception; the field \<open>generated_at\<close>, a reading of the clock, is left out.
\<close>

datatype error_text = Message pystr | StrOf py_error

section \<open>agents/manual_to_ui_tests.py\<close>

record GeneratedTestFile =
  filename :: pystr
  test_file :: pystr
  test_count :: int
  framework :: pystr
  browsers :: "pystr list"

record ManualToUITestsInput =
  ui_job_id :: uuid
  ui_testcases :: "TestCaseDTO list"
  ui_framework :: pystr
  ui_browsers :: "pystr list"
  ui_base_url :: pystr
  ui_headless :: bool
  ui_viewport :: "(pystr \<times> int) list"
  ui_timeout :: int
  ui_priority_filter :: "pystr list option"

record ManualToUITestsOutput =
  success :: bool
  error :: "error_text option"
  generated_tests :: "GeneratedTestFile list"
  total_tests :: int
  out_framework :: pystr
  out_browsers :: "pystr list"

definition filter_by_priority ::
  "python_library \<Rightarrow> TestCaseDTO list \<Rightarrow> pystr list option \<Rightarrow> TestCaseDTO list" where
  "filter_by_priority py tcs priority_filter =
     (case priority_filter of
        None \<Rightarrow> tcs
      | Some ps \<Rightarrow>
          if ps = [] then tcs
          else filter (\<lambda>tc. priority_value (priority tc) \<in> set (map (upper py) ps)) tcs)"

text \<open>The summary of one test case in the prompt; \<open>idx\<close> counts from 1.\<close>

definition case_summary :: "python_library \<Rightarrow> nat \<Rightarrow> TestCaseDTO \<Rightarrow> pystr" where
  "case_summary py idx tc =
     str_of_int (int idx) @ u ''. '' @ title tc @ [10]
     @ u ''Feature: '' @ feature tc @ u ''; Story: '' @ story tc
     @ u ''; Priority: '' @ priority_value (priority tc) @ [10]
     @ u ''Steps: '' @ repr_list py (steps tc) @ [10]
     @ u ''Expected: '' @ expected_result tc"

definition str_of_bool :: "bool \<Rightarrow> pystr" where
  "str_of_bool b = (if b then u ''True'' else u ''False'')"

text \<open>
  \<open>_build_prompt\<close>. The two subscripts \<open>viewport['width']\<close> and \<open>viewport['height']\<close> raise
  KeyError when the key is missing.
\<close>

definition build_prompt ::
  "python_library \<Rightarrow> ManualToUITestsInput \<Rightarrow> TestCaseDTO list \<Rightarrow> py_error + pystr" where
  "build_prompt py input_data tcs =
     (let cases_summary = map (\<lambda>(idx, tc). case_summary py idx tc) (zip [1..<Suc (length tcs)] tcs)
      in case map_of (ui_viewport input_data) (u ''width'') of
           None \<Rightarrow> Inl (KeyError (u ''width''))
         | Some width \<Rightarrow>
             (case map_of (ui_viewport input_data) (u ''height'') of
                None \<Rightarrow> Inl (KeyError (u ''height''))
              | Some height \<Rightarrow>
                  Inr (u ''Base URL: '' @ ui_base_url input_data @ [10]
                       @ u ''Framework: '' @ ui_framework input_data @ [10]
                       @ u ''Browsers: '' @ join (u '', '') (ui_browsers input_data) @ [10]
                       @ u ''Viewport: '' @ str_of_int width @ u ''x'' @ str_of_int height @ [10]
                       @ u ''Headless: '' @ str_of_bool (ui_headless input_data) @ [10]
                       @ u ''Timeout: '' @ str_of_int (ui_timeout input_data) @ u '' ms'' @ [10]
                       @ u ''Manual test cases:'' @ [10]
                       @ join [10, 10] cases_summary
                       @ ([10, 10] @ u ''Return JSON with key '' @ [39] @ u ''tests'' @ [39]
                         @ u '': [{'' @ [34] @ u ''filename'' @ [34] @ u '': '' @ [34]
                         @ u ''...'' @ [34] @ u '', '' @ [34] @ u ''python_code'' @ [34]
                         @ u '': '' @ [34] @ u ''...'' @ [34] @ u '', '' @ [34]
                         @ u ''test_count'' @ [34]
                         @ u '': <int>}]. Each python_code must be valid pytest with Playwright page fixture.''))))"

text \<open>\<open>_sanitize_filename\<close>; the pattern is \<open>[^\w\-\.]\<close>.\<close>

definition ui_sanitize_filename :: "python_library \<Rightarrow> pystr \<Rightarrow> pystr" where
  "ui_sanitize_filename py v =
     (let clean = map (\<lambda>c. if is_word py c \<or> c = 45 \<or> c = 46 then c else 95) (lower py (strip v))
      in if clean = [] then u ''test_ui'' else clean)"

definition build_stub :: "python_library \<Rightarrow> TestCaseDTO \<Rightarrow> ManualToUITestsInput \<Rightarrow> pystr" where
  "build_stub py testcase input_data =
     (let test_name = to_test_name py (title testcase);
          steps_code = join [10]
            (map (\<lambda>(idx, step). u ''        # Step '' @ str_of_int (int idx) @ u '': ''
              @ step)
               (zip [1..<Suc (length (steps testcase))] (steps testcase)));
          steps_code = (if steps_code = [] then (u ''        # TODO: implement steps''
            @ [10]) else steps_code)
      in (u ''import allure'' @ [10] @ u ''import pytest'' @ [10]
        @ u ''from playwright.sync_api import Page, expect'' @ [10, 10])
         @ (u ''@allure.feature('' @ [39]) @ feature testcase @ ([39] @ u '')'' @ [10])
         @ (u ''@allure.story('' @ [39]) @ story testcase @ ([39] @ u '')'' @ [10])
         @ (u ''@allure.title('' @ [39]) @ title testcase @ ([39] @ u '')'' @ [10])
         @ u ''def '' @ test_name @ (u ''(page: Page):'' @ [10])
         @ (u ''    page.goto('' @ [39]) @ ui_base_url input_data @ ([39] @ u '')'' @ [10])
         @ steps_code @ [10]
         @ (u ''    # Add assertions with expect(...)'' @ [10]))"

definition fallback_file ::
  "python_library \<Rightarrow> TestCaseDTO \<Rightarrow> ManualToUITestsInput \<Rightarrow> GeneratedTestFile" where
  "fallback_file py testcase input_data =
     (let slug = ui_sanitize_filename py (if feature testcase \<noteq> [] then feature testcase else u ''ui'');
          fname = u ''test_'' @ slug @ u ''.py'';
          code = build_stub py testcase input_data
      in \<lparr>filename = fname, test_file = code, test_count = 1,
          framework = ui_framework input_data, browsers = ui_browsers input_data\<rparr>)"

text \<open>
  The inner \<open>try\<close> of \<open>execute\<close>. \<open>llm\<close> is \<open>generate_structured_response\<close>, the call of
  the LLM client: it returns the parsed JSON or raises. \<open>parse_response\<close> is
  \<open>_parse_response\<close>, which is reached only with a response of the client. The handler is
  \<open>except Exception\<close>: an exception of either call that derives from \<open>Exception\<close> leaves
  \<open>generated_files\<close> empty, any other one goes on to the caller.
\<close>

definition generate_files ::
  "(pystr \<Rightarrow> py_error + json)
     \<Rightarrow> (json \<Rightarrow> ManualToUITestsInput \<Rightarrow> py_error + GeneratedTestFile list)
     \<Rightarrow> ManualToUITestsInput \<Rightarrow> pystr \<Rightarrow> py_error + GeneratedTestFile list" where
  "generate_files llm parse_response input_data prompt =
     (case (case llm prompt of
              Inl llm_error \<Rightarrow> Inl llm_error
            | Inr response \<Rightarrow> parse_response response input_data) of
        Inl llm_error \<Rightarrow> if is_exception llm_error then Inr [] else Inl llm_error
      | Inr files \<Rightarrow> Inr files)"

text \<open>The body of the outer \<open>try\<close> of \<open>execute\<close>: an output, or the exception that leaves it.\<close>

definition execute_body ::
  "python_library \<Rightarrow> (pystr \<Rightarrow> py_error + json)
     \<Rightarrow> (json \<Rightarrow> ManualToUITestsInput \<Rightarrow> py_error + GeneratedTestFile list)
     \<Rightarrow> ManualToUITestsInput \<Rightarrow> py_error + ManualToUITestsOutput" where
  "execute_body py llm parse_response input_data =
     (let filtered = filter_by_priority py (ui_testcases input_data) (ui_priority_filter input_data)
      in if filtered = []
         then Inr \<lparr>success = False,
               error = Some (Message (u ''No testcases to convert after applying priority filter'')),
               generated_tests = [], total_tests = 0, out_framework = u ''playwright'',
               out_browsers = []\<rparr>
         else
           case build_prompt py input_data filtered of
             Inl exc \<Rightarrow> Inl exc
           | Inr prompt \<Rightarrow>
               (case generate_files llm parse_response input_data prompt of
                  Inl exc \<Rightarrow> Inl exc
                | Inr generated_files \<Rightarrow>
                    (let generated_files =
                           (if generated_files = []
                            then map (\<lambda>tc. fallback_file py tc input_data) filtered
                            else generated_files)
                     in Inr \<lparr>success = True, error = None, generated_tests = generated_files,
                          total_tests = sum_list (map test_count generated_files),
                          out_framework = ui_framework input_data,
                          out_browsers = ui_browsers input_data\<rparr>)))"

text \<open>
  \<open>execute\<close>. The outer handler is \<open>except Exception\<close> as well: it turns an exception
  derived from \<open>Exception\<close> into an output with \<open>success = False\<close>; any other exception
  leaves \<open>execute\<close>, which then returns nothing (\<open>Inl\<close>).
\<close>

definition execute ::
  "python_library \<Rightarrow> (pystr \<Rightarrow> py_error + json)
     \<Rightarrow> (json \<Rightarrow> ManualToUITestsInput \<Rightarrow> py_error + GeneratedTestFile list)
     \<Rightarrow> ManualToUITestsInput \<Rightarrow> py_error + ManualToUITestsOutput" where
  "execute py llm parse_response input_data =
     (case execute_body py llm parse_response input_data of
        Inr output \<Rightarrow> Inr output
      | Inl exc \<Rightarrow>
          if is_exception exc
          then Inr \<lparr>success = False, error = Some (StrOf exc), generated_tests = [],
                 total_tests = 0, out_framework = u ''playwright'', out_browsers = []\<rparr>
          else Inl exc)"

text \<open>
  An LLM client that fails on every call, a parser that is never reached, and an LLM
  client whose call is cancelled every time.
\<close>

definition failing_llm :: "pystr \<Rightarrow> py_error + json" where
  "failing_llm prompt = Inl (OtherError (u ''LLM unavailable''))"

definition cancelled_llm :: "pystr \<Rightarrow> py_error + json" where
  "cancelled_llm prompt = Inl CancelledError"

definition no_parse :: "json \<Rightarrow> ManualToUITestsInput \<Rightarrow> py_error + GeneratedTestFile list" where
  "no_parse response input_data = Inr []"

text \<open>An input with the default settings, and the same input with an empty viewport.\<close>

definition default_ui_input :: ManualToUITestsInput where
  "default_ui_input =
     \<lparr>ui_job_id = 9, ui_testcases = [login_case, critical_case],
      ui_framework = u ''playwright'', ui_browsers = [u ''chromium''],
      ui_base_url = u ''https://cloud.ru/calculator'', ui_headless = True,
      ui_viewport = [(u ''width'', 1920), (u ''height'', 1080)], ui_timeout = 30000,
      ui_priority_filter = None\<rparr>"

definition empty_viewport_input :: ManualToUITestsInput where
  "empty_viewport_input = default_ui_input\<lparr>ui_viewport := []\<rparr>"

section \<open>agents/testplan_agent.py\<close>

datatype TestPlanType = REGRESSION | SMOKE | SANITY | FULL | RELEASE


record TestPlanPhase =
  phase_name :: pystr
  phase_description :: pystr
  phase_duration_hours :: pyfloat
  phase_testcases :: "uuid list"
  phase_objectives :: "pystr list"
  phase_entry_criteria :: "pystr list"
  phase_exit_criteria :: "pystr list"

record TestPlanResource =
  res_role :: pystr
  res_count :: int
  res_skills :: "pystr list"
  res_responsibilities :: "pystr list"

















section \<open>Verification\<close>

lemma pow2_powi: "pow2 e = 2 powi e"
  by (simp add: pow2_def power_int_def field_simps)

lemma pow2_pos [simp]: "0 < pow2 e"
  by (simp add: pow2_powi zero_less_power_int)

lemma pow2_add: "pow2 (a + b) = pow2 a * pow2 b"
  by (simp add: pow2_powi power_int_add)

lemma pow2_nat: "pow2 (int n) = 2 ^ n"
  by (simp add: pow2_def)

lemma pow2_0 [simp]: "pow2 0 = 1"
  by (simp add: pow2_def)

lemma pow2_neq0 [simp]: "pow2 e \<noteq> 0"
  using pow2_pos [of e] by linarith

lemma pow2_diff: "pow2 (a - b) = pow2 a / pow2 b"
proof -
  have "pow2 a = pow2 (a - b) * pow2 b"
    using pow2_add [of "a - b" b] by simp
  then show ?thesis by (simp add: nonzero_eq_divide_eq)
qed

lemma pow2_mono: "a \<le> b \<Longrightarrow> pow2 a \<le> pow2 b"
proof -
  assume "a \<le> b"
  then obtain n where b: "b = a + int n"
    by (metis nat_0_le diff_ge_0_iff_ge add_diff_cancel_left' add.commute diff_add_cancel)
  have "1 \<le> (2::rat) ^ n" by simp
  then have "pow2 a * 1 \<le> pow2 a * 2 ^ n"
    by (intro mult_left_mono) (auto simp: less_imp_le)
  then show ?thesis by (simp add: b pow2_add pow2_nat)
qed

lemma pow2_less_iff: "pow2 a < pow2 b \<longleftrightarrow> a < b"
proof
  assume "pow2 a < pow2 b"
  then show "a < b" using pow2_mono [of b a] by (cases "a < b") auto
next
  assume "a < b"
  then have "a + 1 \<le> b" by simp
  then have "pow2 (a + 1) \<le> pow2 b" by (rule pow2_mono)
  moreover have "pow2 a < pow2 (a + 1)" by (simp add: pow2_add) (simp add: pow2_def)
  ultimately show "pow2 a < pow2 b" by simp
qed

lemma bit_length_bounds:
  "0 < n \<Longrightarrow> 2 ^ (bit_length n - 1) \<le> n \<and> n < 2 ^ bit_length n"
proof (induction n rule: bit_length.induct)
  case (1 n)
  show ?case
  proof (cases "n div 2 = 0")
    case True
    with "1.prems" have "n = 1" by (simp add: div_eq_0_iff) 
    then show ?thesis by (simp add: bit_length.simps [of "Suc 0"] bit_length.simps [of 0])
  next
    case False
    then have ih: "2 ^ (bit_length (n div 2) - 1) \<le> n div 2" "n div 2 < 2 ^ bit_length (n div 2)"
      using "1.IH" "1.prems" by auto
    have bl: "bit_length n = Suc (bit_length (n div 2))"
      using "1.prems" by (subst bit_length.simps) simp
    have pos: "0 < bit_length (n div 2)"
      using False by (subst bit_length.simps) simp
    then obtain k where k: "bit_length (n div 2) = Suc k" by (cases "bit_length (n div 2)") auto
    from ih show ?thesis unfolding bl k by (simp; linarith)
  qed
qed

lemma bit_length_rat_bounds:
  assumes "0 < p"
  shows "pow2 (int (bit_length (nat p)) - 1) \<le> of_int p"
    and "(of_int p :: rat) < pow2 (int (bit_length (nat p)))"
proof -
  let ?n = "nat p"
  have n: "0 < ?n" using assms by simp
  have pos: "0 < bit_length ?n"
    using n by (subst bit_length.simps) simp
  then obtain k where k: "bit_length ?n = Suc k" by (cases "bit_length ?n") auto
  have b: "2 ^ k \<le> ?n" "?n < 2 ^ Suc k"
    using bit_length_bounds [OF n] by (simp_all add: k)
  have np: "(of_nat ?n :: rat) = of_int p" using assms by simp
  have "(of_nat (2 ^ k) :: rat) \<le> of_nat ?n"
    using b(1) by (simp only: of_nat_le_iff)
  then have "(2 ^ k :: rat) \<le> of_int p" by (simp only: np of_nat_power of_nat_numeral)
  moreover have "pow2 (int (Suc k) - 1) = 2 ^ k"
    using pow2_nat [of k] by simp
  ultimately show "pow2 (int (bit_length (nat p)) - 1) \<le> of_int p"
    by (simp only: k)
  have "(of_nat ?n :: rat) < of_nat (2 ^ Suc k)"
    using b(2) by (simp only: of_nat_less_iff)
  then have "(of_int p :: rat) < 2 ^ Suc k" by (simp only: np of_nat_power of_nat_numeral)
  then show "(of_int p :: rat) < pow2 (int (bit_length (nat p)))"
    by (simp only: k pow2_nat)
qed

lemma flog2_bounds:
  assumes "0 < x"
  shows "pow2 (flog2 x) \<le> x" and "x < pow2 (flog2 x + 1)"
proof -
  obtain p q where pq: "quotient_of x = (p, q)" by (cases "quotient_of x")
  have q: "0 < q" using pq by (rule quotient_of_denom_pos)
  have x: "x = of_int p / of_int q" using pq by (rule quotient_of_div)
  have p: "0 < p" using assms q unfolding x by (simp add: zero_less_divide_iff)
  define bp where "bp = int (bit_length (nat p))"
  define bq where "bq = int (bit_length (nat q))"
  have P: "pow2 (bp - 1) \<le> of_int p" "(of_int p :: rat) < pow2 bp"
    using bit_length_rat_bounds [OF p] by (simp_all add: bp_def)
  have Q: "pow2 (bq - 1) \<le> of_int q" "(of_int q :: rat) < pow2 bq"
    using bit_length_rat_bounds [OF q] by (simp_all add: bq_def)
  have qpos: "(0::rat) < of_int q" using q by simp
  have "pow2 (bp - bq + 1) * of_int q \<ge> pow2 (bp - bq + 1) * pow2 (bq - 1)"
    using Q(1) by (intro mult_left_mono) (auto simp: less_imp_le)
  moreover have "pow2 (bp - bq + 1) * pow2 (bq - 1) = pow2 bp"
    by (simp add: pow2_add [symmetric])
  ultimately have "of_int p < pow2 (bp - bq + 1) * of_int q" using P(2) by simp
  then have up: "x < pow2 (bp - bq + 1)"
    unfolding x using qpos by (simp add: pos_divide_less_eq)
  have "pow2 (bp - bq - 1) * of_int q \<le> pow2 (bp - bq - 1) * pow2 bq"
    using Q(2) by (intro mult_left_mono) (auto simp: less_imp_le)
  moreover have "pow2 (bp - bq - 1) * pow2 bq = pow2 (bp - 1)"
    by (simp add: pow2_add [symmetric])
  ultimately have "pow2 (bp - bq - 1) * of_int q \<le> of_int p" using P(1) by simp
  then have lo: "pow2 (bp - bq - 1) \<le> x"
    unfolding x using qpos by (simp add: pos_le_divide_eq)
  have fl: "flog2 x = (if pow2 (bp - bq) \<le> x then bp - bq else bp - bq - 1)"
    by (simp add: flog2_def pq bp_def bq_def Let_def)
  show "pow2 (flog2 x) \<le> x" using lo by (simp add: fl)
  show "x < pow2 (flog2 x + 1)" using up by (auto simp add: fl not_le)
qed

lemma flog2_unique:
  assumes "0 < x" "pow2 e \<le> x" "x < pow2 (e + 1)"
  shows "flog2 x = e"
proof -
  have "pow2 (flog2 x) < pow2 (e + 1)"
    using flog2_bounds(1) [OF assms(1)] assms(3) by simp
  then have "flog2 x < e + 1" by (simp add: pow2_less_iff)
  moreover have "pow2 e < pow2 (flog2 x + 1)"
    using flog2_bounds(2) [OF assms(1)] assms(2) by simp
  then have "e < flog2 x + 1" by (simp add: pow2_less_iff)
  ultimately show ?thesis by simp
qed

lemma flog2_mono:
  assumes "0 < x" "x \<le> y"
  shows "flog2 x \<le> flog2 y"
proof -
  have "pow2 (flog2 x) < pow2 (flog2 y + 1)"
    using flog2_bounds(1) [OF assms(1)] flog2_bounds(2) [of y] assms by simp
  then show ?thesis by (simp add: pow2_less_iff)
qed

lemma round_half_even_of_int [simp]: "round_half_even (of_int k) = k"
  by (simp add: round_half_even_def)

lemma round_half_even_mono:
  assumes "x \<le> y"
  shows "round_half_even x \<le> round_half_even y"
proof -
  have fm: "\<lfloor>x\<rfloor> \<le> \<lfloor>y\<rfloor>" using assms by (rule floor_mono)
  have rx: "round_half_even x \<le> \<lfloor>x\<rfloor> + 1" and ry: "\<lfloor>y\<rfloor> \<le> round_half_even y"
    by (simp_all add: round_half_even_def Let_def)
  show ?thesis
  proof (cases "\<lfloor>x\<rfloor> = \<lfloor>y\<rfloor>")
    case False
    then show ?thesis using fm rx ry by linarith
  next
    case True
    then have "x - of_int \<lfloor>x\<rfloor> \<le> y - of_int \<lfloor>y\<rfloor>" using assms by simp
    then show ?thesis
      unfolding round_half_even_def Let_def True [symmetric]
      by (auto split: if_splits)
  qed
qed

lemma round_binary64_pos:
  assumes "0 < x"
  shows "round_binary64 x =
    of_int (round_half_even (x / pow2 (max (flog2 x) (- 1022) - 52))) *
      pow2 (max (flog2 x) (- 1022) - 52)"
  using assms by (simp add: round_binary64_def Let_def)

lemma pow2_numeral_53: "pow2 53 = of_int (2 ^ 53)" and pow2_numeral_52: "pow2 52 = of_int (2 ^ 52)"
  by (simp_all add: pow2_def)

lemma round_binary64_upper:
  assumes "0 < x" and e: "e = max (flog2 x) (- 1022)"
  shows "round_binary64 x \<le> pow2 (e + 1)"
proof -
  let ?ulp = "pow2 (e - 52)"
  have "x < pow2 (flog2 x + 1)" using assms(1) by (rule flog2_bounds)
  also have "\<dots> \<le> pow2 (e + 1)" by (rule pow2_mono) (simp add: e)
  finally have "x / ?ulp < pow2 (e + 1) / ?ulp"
    by (simp add: divide_strict_right_mono)
  also have "pow2 (e + 1) / ?ulp = pow2 53"
    using pow2_diff [of "e + 1" "e - 52"] by simp
  finally have "x / ?ulp \<le> of_int (2 ^ 53)" by (simp add: pow2_numeral_53)
  then have "round_half_even (x / ?ulp) \<le> round_half_even (of_int (2 ^ 53))"
    by (rule round_half_even_mono)
  then have "round_half_even (x / ?ulp) \<le> 2 ^ 53" by (simp only: round_half_even_of_int)
  then have "(of_int (round_half_even (x / ?ulp)) :: rat) \<le> of_int (2 ^ 53)"
    by (simp only: of_int_le_iff)
  then have "of_int (round_half_even (x / ?ulp)) * ?ulp \<le> pow2 53 * ?ulp"
    by (simp only: pow2_numeral_53) (simp add: mult_right_mono less_imp_le)
  also have "pow2 53 * ?ulp = pow2 (e + 1)"
    using pow2_add [of 53 "e - 52"] by (simp add: add.commute)
  finally show ?thesis using assms(1) by (simp add: round_binary64_pos e)
qed

lemma round_binary64_lower:
  assumes "0 < x" and e: "e = flog2 x" and n: "- 1022 \<le> e"
  shows "pow2 e \<le> round_binary64 x"
proof -
  let ?ulp = "pow2 (e - 52)"
  have m: "max (flog2 x) (- 1022) = e" using e n by simp
  have "pow2 e \<le> x" unfolding e using assms(1) by (rule flog2_bounds)
  then have "pow2 e / ?ulp \<le> x / ?ulp"
    by (simp add: divide_right_mono less_imp_le)
  moreover have "pow2 e / ?ulp = pow2 52"
    using pow2_diff [of e "e - 52"] by simp
  ultimately have "of_int (2 ^ 52) \<le> x / ?ulp" by (simp add: pow2_numeral_52)
  then have "round_half_even (of_int (2 ^ 52)) \<le> round_half_even (x / ?ulp)"
    by (rule round_half_even_mono)
  then have "2 ^ 52 \<le> round_half_even (x / ?ulp)" by (simp only: round_half_even_of_int)
  then have "(of_int (2 ^ 52) :: rat) \<le> of_int (round_half_even (x / ?ulp))"
    by (simp only: of_int_le_iff)
  then have "pow2 52 * ?ulp \<le> of_int (round_half_even (x / ?ulp)) * ?ulp"
    by (simp only: pow2_numeral_52) (simp add: mult_right_mono less_imp_le)
  moreover have "pow2 52 * ?ulp = pow2 e"
    using pow2_add [of 52 "e - 52"] by simp
  ultimately show ?thesis using assms(1) by (simp add: round_binary64_pos m)
qed

lemma round_binary64_mono_pos:
  assumes "0 < x" "x \<le> y"
  shows "round_binary64 x \<le> round_binary64 y"
proof -
  define ex where "ex = max (flog2 x) (- 1022)"
  define ey where "ey = max (flog2 y) (- 1022)"
  have y: "0 < y" using assms by simp
  have le: "ex \<le> ey" using flog2_mono [OF assms] by (simp add: ex_def ey_def)
  show ?thesis
  proof (cases "ex = ey")
    case True
    have "x / pow2 (ex - 52) \<le> y / pow2 (ex - 52)"
      using assms(2) by (simp add: divide_right_mono less_imp_le)
    then have "round_half_even (x / pow2 (ex - 52)) \<le> round_half_even (y / pow2 (ex - 52))"
      by (rule round_half_even_mono)
    then have "(of_int (round_half_even (x / pow2 (ex - 52))) :: rat)
        \<le> of_int (round_half_even (y / pow2 (ex - 52)))"
      by (simp only: of_int_le_iff)
    then have "of_int (round_half_even (x / pow2 (ex - 52))) * pow2 (ex - 52)
        \<le> of_int (round_half_even (y / pow2 (ex - 52))) * pow2 (ex - 52)"
      by (rule mult_right_mono) (simp add: less_imp_le)
    then show ?thesis
      using assms(1) y True by (simp add: round_binary64_pos ex_def ey_def)
  next
    case False
    then have lt: "ex < ey" using le by simp
    then have ey: "ey = flog2 y" "- 1022 \<le> ey" by (auto simp: ex_def ey_def)
    have "round_binary64 x \<le> pow2 (ex + 1)"
      using assms(1) ex_def by (rule round_binary64_upper)
    also have "\<dots> \<le> pow2 ey" using lt by (intro pow2_mono) simp
    also have "\<dots> \<le> round_binary64 y"
      using y ey by (rule round_binary64_lower)
    finally show ?thesis .
  qed
qed

lemma round_binary64_nonneg:
  assumes "0 \<le> x"
  shows "0 \<le> round_binary64 x"
proof (cases "x = 0")
  case True
  then show ?thesis by (simp add: round_binary64_def)
next
  case False
  then have x: "0 < x" using assms by simp
  have "0 \<le> x / pow2 (max (flog2 x) (- 1022) - 52)" using x by (simp add: less_imp_le)
  then have "round_half_even 0 \<le> round_half_even (x / pow2 (max (flog2 x) (- 1022) - 52))"
    by (rule round_half_even_mono)
  then have "0 \<le> round_half_even (x / pow2 (max (flog2 x) (- 1022) - 52))"
    using round_half_even_of_int [of 0] by simp
  then show ?thesis using x by (simp add: round_binary64_pos less_imp_le)
qed

lemma round_binary64_mono:
  assumes "0 \<le> x" "x \<le> y"
  shows "round_binary64 x \<le> round_binary64 y"
proof (cases "x = 0")
  case True
  have "0 \<le> round_binary64 y" using assms by (intro round_binary64_nonneg) simp
  then show ?thesis using True by (simp add: round_binary64_def)
next
  case False
  then show ?thesis using assms by (intro round_binary64_mono_pos) simp_all
qed

lemma round_binary64_exact:
  assumes k: "0 < k" "k < 2 ^ 53" and j: "- 1074 \<le> j"
  shows "round_binary64 (of_int k * pow2 j) = of_int k * pow2 j"
proof -
  define y :: rat where "y = of_int k * pow2 j"
  define e where "e = max (flog2 y) (- 1022)"
  have y: "0 < y" using k by (simp add: y_def)
  have "pow2 (flog2 y) \<le> y" using y by (rule flog2_bounds)
  also have "y < of_int (2 ^ 53) * pow2 j"
    unfolding y_def using k(2) by (simp only: of_int_less_iff mult_strict_right_mono pow2_pos)
  also have "of_int (2 ^ 53) * pow2 j = pow2 (53 + j)"
    by (simp add: pow2_add pow2_numeral_53)
  finally have "flog2 y < 53 + j" by (simp add: pow2_less_iff)
  then have d: "0 \<le> j - e + 52" using j by (simp add: e_def)
  define n where "n = nat (j - e + 52)"
  have "y / pow2 (e - 52) = of_int k * pow2 (j - (e - 52))"
    by (simp add: y_def pow2_diff)
  also have "j - (e - 52) = int n" using d by (simp add: n_def)
  also have "of_int k * pow2 (int n) = of_int (k * 2 ^ n)" by (simp add: pow2_nat)
  finally have q: "y / pow2 (e - 52) = of_int (k * 2 ^ n)" .
  have "round_binary64 y = of_int (round_half_even (y / pow2 (e - 52))) * pow2 (e - 52)"
    using y by (simp add: round_binary64_pos e_def)
  also have "\<dots> = y / pow2 (e - 52) * pow2 (e - 52)"
    by (simp only: q round_half_even_of_int)
  also have "\<dots> = y" by simp
  finally show ?thesis by (simp add: y_def)
qed

lemma round_half_even_below_half:
  assumes "x < of_int m + 1 / 2"
  shows "round_half_even x \<le> m"
proof -
  have "\<lfloor>x\<rfloor> \<le> m" using assms by (simp add: floor_le_iff)
  then consider "\<lfloor>x\<rfloor> = m" | "\<lfloor>x\<rfloor> + 1 \<le> m" by linarith
  then show ?thesis
  proof cases
    case 1
    then have "x - of_int \<lfloor>x\<rfloor> < 1 / 2" using assms by simp
    then show ?thesis using 1 by (simp add: round_half_even_def Let_def)
  next
    case 2
    have "round_half_even x \<le> \<lfloor>x\<rfloor> + 1" by (simp add: round_half_even_def Let_def)
    then show ?thesis using 2 by simp
  qed
qed

lemma dbl_max_less: "dbl_max < 2 ^ 1024"
proof -
  have "dbl_max < of_int (2 ^ 53) * pow2 971"
    unfolding dbl_max_def by (intro mult_strict_right_mono) simp_all
  also have "\<dots> = pow2 (53 + 971)" by (simp only: pow2_add pow2_numeral_53)
  also have "\<dots> = 2 ^ 1024" by (simp add: pow2_def)
  finally show ?thesis .
qed

lemma round_binary64_dbl_max: "round_binary64 dbl_max = dbl_max"
  unfolding dbl_max_def by (rule round_binary64_exact) simp_all

lemma round_binary64_le_dbl_max:
  assumes "0 \<le> x" "x < 2 ^ 1024 - 2 ^ 970"
  shows "round_binary64 x \<le> dbl_max"
proof (cases "x \<le> dbl_max")
  case True
  then show ?thesis
    using round_binary64_mono [OF assms(1) True] by (simp add: round_binary64_dbl_max)
next
  case False
  then have big: "dbl_max < x" by simp
  have p1023: "pow2 1023 \<le> dbl_max"
  proof -
    have "pow2 52 * pow2 971 \<le> dbl_max"
      unfolding dbl_max_def by (intro mult_right_mono) (simp_all add: pow2_numeral_52 less_imp_le)
    then show ?thesis by (simp add: pow2_add [symmetric])
  qed
  have x: "0 < x" using big p1023 pow2_pos [of 1023] by linarith
  have p1024: "pow2 1024 = 2 ^ 1024" and p970: "pow2 970 = 2 ^ 970" by (simp_all add: pow2_def)
  have "x < pow2 1024" using assms(2) unfolding p1024 by (simp add: less_diff_eq trans_less_add1)
  then have "x < pow2 (1023 + 1)" by simp
  moreover have "pow2 1023 \<le> x" using big p1023 by simp
  ultimately have fl: "flog2 x = 1023" using x by (intro flog2_unique)
  have "x < pow2 1024 - pow2 970" using assms(2) by (simp only: p1024 p970)
  then have "x / pow2 971 < (pow2 1024 - pow2 970) / pow2 971"
    by (simp add: divide_strict_right_mono)
  also have "\<dots> = pow2 (1024 - 971) - pow2 (970 - 971)"
    by (simp only: pow2_diff diff_divide_distrib)
  also have "\<dots> = of_int (2 ^ 53 - 1) + 1 / 2" by (simp add: pow2_def)
  finally have "round_half_even (x / pow2 971) \<le> 2 ^ 53 - 1"
    by (rule round_half_even_below_half)
  then have "(of_int (round_half_even (x / pow2 971)) :: rat) \<le> of_int (2 ^ 53 - 1)"
    by (simp only: of_int_le_iff)
  then have "of_int (round_half_even (x / pow2 971)) * pow2 971 \<le> dbl_max"
    unfolding dbl_max_def by (rule mult_right_mono) (simp add: less_imp_le)
  then show ?thesis using x by (simp add: round_binary64_pos fl)
qed

lemma float_round_finite:
  assumes "\<bar>round_binary64 x\<bar> < 2 ^ 1024"
  shows "float_round x = Finite (round_binary64 x)"
  using assms by (simp add: float_round_def overflows_def Let_def)

lemma float_of_int_ok:
  assumes "0 \<le> n" "n < 2 ^ 1024 - 2 ^ 970"
  shows "float_of_int n = Inr (Finite (round_binary64 (of_int n)))"
proof -
  have "(of_int n :: rat) < of_int (2 ^ 1024 - 2 ^ 970)" using assms(2) by (simp only: of_int_less_iff)
  then have "(of_int n :: rat) < 2 ^ 1024 - 2 ^ 970" by simp
  then have "round_binary64 (of_int n) \<le> dbl_max"
    using assms(1) by (intro round_binary64_le_dbl_max) simp_all
  moreover have "0 \<le> round_binary64 (of_int n)"
    using assms(1) by (intro round_binary64_nonneg) simp
  ultimately have "\<bar>round_binary64 (of_int n)\<bar> < 2 ^ 1024"
    using dbl_max_less by simp
  then have "float_round (of_int n) = Finite (round_binary64 (of_int n))"
    by (rule float_round_finite)
  then show ?thesis by (simp add: float_of_int_def)
qed


lemma round_binary64_of_int:
  assumes "0 \<le> n" "n < 2 ^ 53"
  shows "round_binary64 (of_int n) = of_int n"
proof (cases "n = 0")
  case True
  then show ?thesis by (simp add: round_binary64_def)
next
  case False
  then have "round_binary64 (of_int n * pow2 0) = of_int n * pow2 0"
    using assms by (intro round_binary64_exact) simp_all
  then show ?thesis by simp
qed

lemma float_mul_finite:
  assumes "0 \<le> x" "x \<le> dbl_max" "0 \<le> c" "c \<le> 1"
  shows "float_mul (Finite x) (Finite c) = Finite (round_binary64 (x * c))"
proof -
  have "x * c \<le> x * 1" using assms by (intro mult_left_mono) simp_all
  then have "x * c \<le> dbl_max" using assms(2) by simp
  moreover have nn: "0 \<le> x * c" using assms by simp
  ultimately have "round_binary64 (x * c) \<le> dbl_max"
    using round_binary64_mono [of "x * c" dbl_max] by (simp add: round_binary64_dbl_max)
  moreover have "0 \<le> round_binary64 (x * c)" using nn by (rule round_binary64_nonneg)
  ultimately have "\<bar>round_binary64 (x * c)\<bar> < 2 ^ 1024"
    using dbl_max_less by simp
  then show ?thesis by (simp add: float_round_finite)
qed

lemma floor_round_scaled:
  fixes n k d :: int
  assumes n: "0 \<le> n" "n \<le> 2 ^ 40" and k: "0 \<le> k" "k \<le> 10" and d: "0 \<le> d" "d \<le> 4"
    and c: "c = (of_int k * 2 ^ 53 + of_int d) / (10 * 2 ^ 53)"
  shows "\<lfloor>round_binary64 (of_int n * c)\<rfloor> = (k * n) div 10"
proof -
  define q where "q = (k * n) div 10"
  define r where "r = (k * n) mod 10"
  define x :: rat where "x = of_int n * c"
  have kn: "k * n = 10 * q + r" by (simp add: q_def r_def)
  have r: "0 \<le> r" "r \<le> 9" by (simp_all add: r_def) 
  have q0: "0 \<le> q" using n k by (simp add: q_def pos_imp_zdiv_nonneg_iff)
  have "k * n \<le> 10 * 2 ^ 40" using n k by (intro mult_mono) simp_all
  then have q1: "q \<le> 2 ^ 40" by (simp add: q_def)
  have knr: "(of_int k :: rat) * of_int n = 10 * of_int q + of_int r"
    using kn by (metis of_int_mult of_int_add of_int_numeral)
  have rr: "(0::rat) \<le> of_int r" "(of_int r :: rat) \<le> 9" using r by simp_all
  have nr: "(0::rat) \<le> of_int n" "(of_int n :: rat) \<le> 2 ^ 40"
    using n by (simp, metis of_int_le_iff of_int_numeral of_int_power)
  have dr: "(0::rat) \<le> of_int d" "(of_int d :: rat) \<le> 4" using d by simp_all
  have dn: "(of_int d :: rat) * of_int n \<le> 4 * 2 ^ 40" "0 \<le> (of_int d :: rat) * of_int n"
  proof -
    show "(of_int d :: rat) * of_int n \<le> 4 * 2 ^ 40"
      using dr nr by (intro mult_mono) simp_all
    show "0 \<le> (of_int d :: rat) * of_int n" using dr nr by simp
  qed
  define t :: rat where "t = (of_int d * of_int n) / (10 * 2 ^ 53)"
  have t: "0 \<le> t" "t \<le> (4 * 2 ^ 40) / (10 * 2 ^ 53)"
  proof -
    show "0 \<le> t" unfolding t_def using dn(2) by (intro divide_nonneg_pos) simp_all
    show "t \<le> (4 * 2 ^ 40) / (10 * 2 ^ 53)"
      unfolding t_def using dn(1) by (intro divide_right_mono) simp_all
  qed
  have "x = (of_int k * of_int n) / 10 + t"
    by (simp add: x_def c t_def field_simps)
  also have "(of_int k * of_int n) / 10 = of_int q + of_int r / (10 :: rat)"
    unfolding knr by (simp add: add_divide_distrib)
  finally have xeq: "x = of_int q + of_int r / 10 + t" .
  have r10: "0 \<le> of_int r / (10 :: rat)" "of_int r / (10 :: rat) \<le> 9 / 10"
    using rr by simp_all
  have lo: "of_int q \<le> x" unfolding xeq using r10 t by linarith
  have hi: "x \<le> of_int (16 * q + 15) * pow2 (- 4)"
  proof -
    have "t \<le> 1 / 32" using t(2) by simp
    then have "x \<le> of_int q + 15 / 16"
      unfolding xeq using r10 by linarith
    also have "\<dots> = of_int (16 * q + 15) * pow2 (- 4)" by (simp add: pow2_def field_simps)
    finally show ?thesis .
  qed
  have x0: "0 \<le> x" using lo q0 by (metis of_int_0_le_iff order_trans)
  have "round_binary64 (of_int q) \<le> round_binary64 x"
    using lo q0 by (intro round_binary64_mono) simp_all
  moreover have "round_binary64 (of_int q) = of_int q"
    using q0 q1 by (intro round_binary64_of_int) simp_all
  ultimately have L: "of_int q \<le> round_binary64 x" by simp
  have "round_binary64 x \<le> round_binary64 (of_int (16 * q + 15) * pow2 (- 4))"
    using x0 hi by (rule round_binary64_mono)
  moreover have "round_binary64 (of_int (16 * q + 15) * pow2 (- 4)) = of_int (16 * q + 15) * pow2 (- 4)"
    using q0 q1 by (intro round_binary64_exact) simp_all
  moreover have "of_int (16 * q + 15) * pow2 (- 4) < (of_int q :: rat) + 1"
    by (simp add: pow2_def field_simps)
  ultimately have U: "round_binary64 x < of_int q + 1" by simp
  have "\<lfloor>round_binary64 x\<rfloor> = q" using L U by (simp add: floor_unique)
  then show ?thesis by (simp add: x_def q_def)
qed

lemma base_time_of_cases: "base_time_of t \<in> {25, 30, 35, 45}"
  by (simp add: base_time_of_def base_times_def)

lemma float_consts:
  "float_1_0 = (of_int 10 * 2 ^ 53 + of_int 0) / (10 * 2 ^ 53)"
  "float_0_9 = (of_int 9 * 2 ^ 53 + of_int 2) / (10 * 2 ^ 53)"
  "float_0_8 = (of_int 8 * 2 ^ 53 + of_int 4) / (10 * 2 ^ 53)"
  by (simp_all add: float_1_0_def float_0_9_def float_0_8_def)

lemma multiplier_of_tier:
  "\<exists>d. 0 \<le> d \<and> d \<le> 4 \<and>
     multiplier_of c = (of_int (tier_tenths c) * 2 ^ 53 + of_int d) / (10 * 2 ^ 53)"
proof -
  consider "c \<le> 10" | "10 < c" "c \<le> 30" | "30 < c" by linarith
  then show ?thesis
  proof cases
    case 1
    then have "multiplier_of c = (of_int (tier_tenths c) * 2 ^ 53 + of_int 0) / (10 * 2 ^ 53)"
      by (simp only: multiplier_of_def tier_tenths_def float_consts(1) if_True)
    then show ?thesis by (intro exI [of _ 0]) simp
  next
    case 2
    then have "multiplier_of c = (of_int (tier_tenths c) * 2 ^ 53 + of_int 2) / (10 * 2 ^ 53)"
      by (simp add: multiplier_of_def tier_tenths_def float_consts(2))
    then show ?thesis by (intro exI [of _ 2]) simp
  next
    case 3
    then have "multiplier_of c = (of_int (tier_tenths c) * 2 ^ 53 + of_int 4) / (10 * 2 ^ 53)"
      by (simp add: multiplier_of_def tier_tenths_def float_consts(3))
    then show ?thesis by (intro exI [of _ 4]) simp
  qed
qed

lemma multiplier_of_range: "0 \<le> multiplier_of c" "multiplier_of c \<le> 1"
  by (simp_all add: multiplier_of_def float_1_0_def float_0_9_def float_0_8_def)

lemma estimated_time_float:
  assumes "0 \<le> n" "n < 2 ^ 1024 - 2 ^ 970"
  shows "(case float_of_int n of Inl e \<Rightarrow> Inl e
          | Inr product \<Rightarrow>
              (case int_of_float (float_mul product (Finite (multiplier_of c))) of
                 Inl e \<Rightarrow> Inl e
               | Inr estimated \<Rightarrow> Inr (max 60 (min estimated 1800))))
       = Inr (max 60 (min \<lfloor>round_binary64 (round_binary64 (of_int n) * multiplier_of c)\<rfloor> 1800))"
proof -
  let ?P = "round_binary64 (of_int n)"
  have "(of_int n :: rat) < of_int (2 ^ 1024 - 2 ^ 970)"
    using assms(2) by (simp only: of_int_less_iff)
  then have "(of_int n :: rat) < 2 ^ 1024 - 2 ^ 970" by simp
  then have P1: "?P \<le> dbl_max" using assms(1) by (intro round_binary64_le_dbl_max) simp_all
  have P0: "0 \<le> ?P" using assms(1) by (intro round_binary64_nonneg) simp
  have m: "float_mul (Finite ?P) (Finite (multiplier_of c)) = Finite (round_binary64 (?P * multiplier_of c))"
    using P0 P1 multiplier_of_range by (rule float_mul_finite)
  then have m: "float_round (?P * multiplier_of c) = Finite (round_binary64 (?P * multiplier_of c))"
    by simp
  have "0 \<le> ?P * multiplier_of c" using P0 multiplier_of_range(1) by simp
  then have "0 \<le> round_binary64 (?P * multiplier_of c)" by (rule round_binary64_nonneg)
  then show ?thesis
    by (simp add: float_of_int_ok [OF assms] m)
qed

lemma estimated_time_small:
  assumes "0 \<le> n" "n \<le> 2 ^ 40"
  shows "\<lfloor>round_binary64 (round_binary64 (of_int n) * multiplier_of c)\<rfloor>
           = (tier_tenths c * n) div 10"
proof -
  obtain d where d: "0 \<le> d" "d \<le> 4"
      "multiplier_of c = (of_int (tier_tenths c) * 2 ^ 53 + of_int d) / (10 * 2 ^ 53)"
    using multiplier_of_tier [of c] by blast
  have k: "0 \<le> tier_tenths c" "tier_tenths c \<le> 10" by (simp_all add: tier_tenths_def)
  have "n < 2 ^ 53" using assms(2) by simp
  then have "round_binary64 (of_int n) = of_int n"
    using assms(1) by (intro round_binary64_of_int)
  then show ?thesis
    using floor_round_scaled [OF assms k d] by simp
qed

lemma estimated_time_large:
  assumes "2250 \<le> n" "30 < c"
  shows "1800 \<le> \<lfloor>round_binary64 (round_binary64 (of_int n) * multiplier_of c)\<rfloor>"
proof -
  let ?P = "round_binary64 (of_int n)"
  have "(of_int 2250 :: rat) \<le> of_int n" using assms(1) by (simp only: of_int_le_iff)
  then have "round_binary64 (of_int 2250) \<le> ?P" by (intro round_binary64_mono) simp_all
  moreover have "round_binary64 (of_int 2250) = of_int 2250"
    by (rule round_binary64_of_int) simp_all
  ultimately have P: "2250 \<le> ?P" by simp
  have mc: "multiplier_of c = float_0_8" using assms(2) by (simp add: multiplier_of_def)
  have "2250 * float_0_8 \<le> ?P * float_0_8"
    using P by (intro mult_right_mono) (simp_all add: float_0_8_def)
  moreover have "1800 \<le> 2250 * float_0_8" by (simp add: float_0_8_def)
  ultimately have "1800 \<le> ?P * float_0_8" by (rule order_trans [rotated])
  then have "of_int 1800 \<le> ?P * multiplier_of c" by (simp only: mc of_int_numeral)
  then have "round_binary64 (of_int 1800) \<le> round_binary64 (?P * multiplier_of c)"
    by (intro round_binary64_mono) simp_all
  moreover have "round_binary64 (of_int 1800) = of_int 1800"
    by (rule round_binary64_of_int) simp_all
  ultimately have "of_int 1800 \<le> round_binary64 (?P * multiplier_of c)" by simp
  then show ?thesis by (simp only: le_floor_iff)
qed

lemma estimated_time_closed_form:
  assumes "0 \<le> c" "base_time_of t * c < 2 ^ 1024 - 2 ^ 970"
  shows "calculate_estimated_time c t
           = Inr (max 60 (min ((base_time_of t * c * tier_tenths c) div 10) 1800))"
proof -
  define b where "b = base_time_of t"
  define n where "n = b * c"
  have b: "25 \<le> b" "b \<le> 45" using base_time_of_cases [of t] by (auto simp: b_def)
  have n0: "0 \<le> n" using assms(1) b by (simp add: n_def)
  have n1: "n < 2 ^ 1024 - 2 ^ 970" using assms(2) by (simp add: n_def b_def)
  let ?f = "\<lfloor>round_binary64 (round_binary64 (of_int n) * multiplier_of c)\<rfloor>"
  have eq: "calculate_estimated_time c t = Inr (max 60 (min ?f 1800))"
    using estimated_time_float [OF n0 n1, of c]
    by (simp add: calculate_estimated_time_def Let_def n_def b_def)
  have "min ?f 1800 = min ((n * tier_tenths c) div 10) 1800"
  proof (cases "n \<le> 2 ^ 40")
    case True
    then show ?thesis
      using estimated_time_small [OF n0 True, of c] by (simp add: mult.commute)
  next
    case False
    then have big: "2 ^ 40 < n" by simp
    have "30 < c"
    proof (rule ccontr)
      assume "\<not> 30 < c"
      then have "c \<le> 30" by simp
      then have "b * c \<le> 45 * 30" using b assms(1) by (intro mult_mono) simp_all
      then show False using big by (simp add: n_def)
    qed
    then have t: "tier_tenths c = 8" by (simp add: tier_tenths_def)
    have "2250 \<le> n" using big by simp
    then have "1800 \<le> ?f" using \<open>30 < c\<close> by (rule estimated_time_large)
    moreover have "1800 \<le> (n * 8) div 10" using \<open>2250 \<le> n\<close> by simp
    ultimately show ?thesis by (simp add: t)
  qed
  then show ?thesis by (simp add: eq n_def b_def)
qed


lemma round_half_even_half_odd:
  assumes "odd m"
  shows "round_half_even (of_int m + 1 / 2) = m + 1"
proof -
  have f: "\<lfloor>(of_int m + 1 / 2 :: rat)\<rfloor> = m" by (simp add: floor_unique)
  show ?thesis using assms by (simp add: round_half_even_def Let_def f)
qed

lemma round_binary64_half_way:
  "round_binary64 (of_int (2 ^ 54 - 1) * pow2 970) = pow2 1024"
proof -
  let ?x = "of_int (2 ^ 54 - 1) * pow2 970 :: rat"
  have pos: "0 < ?x" by simp
  have p54: "pow2 54 = of_int (2 ^ 54)" by (simp add: pow2_def)
  have lo: "pow2 1023 \<le> ?x"
  proof -
    have "pow2 1023 = of_int (2 ^ 53) * pow2 970" by (simp only: pow2_numeral_53 [symmetric] pow2_add [symmetric]) simp
    also have "\<dots> \<le> ?x" by (intro mult_right_mono) (simp_all add: less_imp_le)
    finally show ?thesis .
  qed
  have hi: "?x < pow2 (1023 + 1)"
  proof -
    have "?x < of_int (2 ^ 54) * pow2 970" by (intro mult_strict_right_mono) simp_all
    also have "\<dots> = pow2 (1023 + 1)" by (simp only: p54 [symmetric] pow2_add [symmetric]) simp
    finally show ?thesis .
  qed
  have fl: "flog2 ?x = 1023" using pos lo hi by (rule flog2_unique)
  have e: "max (flog2 ?x) (- 1022) - 52 = 971" by (simp only: fl)
  have "pow2 971 = 2 * pow2 970" using pow2_add [of 1 970] by (simp add: pow2_def)
  then have q: "?x / pow2 971 = of_int (2 ^ 53 - 1) + 1 / 2"
    by simp
  have r: "round_half_even (of_int (2 ^ 53 - 1) + 1 / 2) = 2 ^ 53 - 1 + 1"
    by (rule round_half_even_half_odd) simp
  have "round_binary64 ?x = of_int (2 ^ 53) * pow2 971"
    by (simp only: round_binary64_pos [OF pos] e q r) simp
  also have "\<dots> = pow2 1024" by (simp only: pow2_numeral_53 [symmetric] pow2_add [symmetric]) simp
  finally show ?thesis .
qed

lemma float_of_int_raises:
  assumes "2 ^ 1024 - 2 ^ 970 \<le> n"
  shows "float_of_int n = Inl OverflowError"
proof -
  have "(of_int (2 ^ 1024 - 2 ^ 970) :: rat) \<le> of_int n" using assms by (simp only: of_int_le_iff)
  moreover have "(of_int (2 ^ 1024 - 2 ^ 970) :: rat) = of_int (2 ^ 54 - 1) * pow2 970"
    by (simp add: pow2_def)
  ultimately have le: "of_int (2 ^ 54 - 1) * pow2 970 \<le> (of_int n :: rat)" by simp
  have "round_binary64 (of_int (2 ^ 54 - 1) * pow2 970) \<le> round_binary64 (of_int n)"
    using le by (intro round_binary64_mono) (simp_all add: less_imp_le)
  then have "pow2 1024 \<le> round_binary64 (of_int n)"
    by (simp only: round_binary64_half_way)
  moreover have "pow2 1024 = 2 ^ 1024" by (simp add: pow2_def)
  ultimately have "2 ^ 1024 \<le> round_binary64 (of_int n)" by simp
  then have "overflows (round_binary64 (of_int n))" by (simp add: overflows_def)
  then show ?thesis by (simp add: float_of_int_def float_round_def Let_def)
qed

lemma estimated_time_raises:
  assumes "2 ^ 1024 - 2 ^ 970 \<le> base_time_of t * c"
  shows "calculate_estimated_time c t = Inl OverflowError"
  using float_of_int_raises [OF assms] by (simp add: calculate_estimated_time_def)

lemma base_time_of_tokens:
  "base_time_of (u ''manual_ui'') = 30" "base_time_of (u ''manual_api'') = 25"
  "base_time_of (u ''auto_ui'') = 45" "base_time_of (u ''auto_api'') = 35"
  by (simp_all add: base_time_of_def base_times_def u_def)

lemma base_time_of_test_type:
  "base_time_of (test_type_value MANUAL_UI) = 30" "base_time_of (test_type_value MANUAL_API) = 25"
  "base_time_of (test_type_value AUTOMATED_UI) = 30"
  "base_time_of (test_type_value AUTOMATED_API) = 30"
  by (simp_all add: base_time_of_def base_times_def u_def)

lemma base_time_of_eq:
  "base_time_of t =
     (if t = u ''manual_ui'' then 30 else if t = u ''manual_api'' then 25
      else if t = u ''auto_ui'' then 45 else if t = u ''auto_api'' then 35 else 30)"
  by (auto simp: base_time_of_def base_times_def)

text \<open>
  C4, as the code has it: for a count from 0 up to the range of the integer-to-float
  conversion, the helper returns the floating-point product, truncated and clamped to
  [60, 1800]; the truncated product is the integer quotient of base * count * tenths by 10,
  with tenths 10, 9 and 8 for the three tiers. The base is 30 seconds for \<open>manual_ui\<close>, 25
  for \<open>manual_api\<close>, 45 for the token \<open>auto_ui\<close>, 35 for the token \<open>auto_api\<close>, and 30 for
  every other string: the TestType values \<open>automated_ui\<close> and \<open>automated_api\<close> are not keys
  of the table and get the default of 30 seconds.
\<close>

theorem calculate_estimated_time_value:
  assumes "0 \<le> c" and "base_time_of t * c < 2 ^ 1024 - 2 ^ 970"
  shows "calculate_estimated_time c t
           = Inr (max 60 (min ((base_time_of t * c * tier_tenths c) div 10) 1800))
       \<and> base_time_of t =
           (if t = u ''manual_ui'' then 30 else if t = u ''manual_api'' then 25
            else if t = u ''auto_ui'' then 45 else if t = u ''auto_api'' then 35 else 30)
       \<and> tier_tenths c = (if c \<le> 10 then 10 else if c \<le> 30 then 9 else 8)
       \<and> test_type_value MANUAL_UI = u ''manual_ui''
       \<and> test_type_value MANUAL_API = u ''manual_api''
       \<and> test_type_value AUTOMATED_UI = u ''automated_ui''
       \<and> test_type_value AUTOMATED_API = u ''automated_api''
       \<and> base_time_of (test_type_value MANUAL_UI) = 30
       \<and> base_time_of (test_type_value MANUAL_API) = 25
       \<and> base_time_of (test_type_value AUTOMATED_UI) = 30
       \<and> base_time_of (test_type_value AUTOMATED_API) = 30"
proof -
  have "calculate_estimated_time c t
           = Inr (max 60 (min ((base_time_of t * c * tier_tenths c) div 10) 1800))"
    using assms by (rule estimated_time_closed_form)
  moreover have "tier_tenths c = (if c \<le> 10 then 10 else if c \<le> 30 then 9 else 8)"
    by (simp add: tier_tenths_def)
  moreover have "test_type_value MANUAL_UI = u ''manual_ui''"
    "test_type_value MANUAL_API = u ''manual_api''"
    "test_type_value AUTOMATED_UI = u ''automated_ui''"
    "test_type_value AUTOMATED_API = u ''automated_api''"
    by simp_all
  ultimately show ?thesis
    using base_time_of_eq [of t] base_time_of_test_type by (simp only: simp_thms)
qed

theorem calculate_estimated_time_value_witness:
  "(0::int) \<le> 12 \<and> base_time_of (u ''auto_ui'') * 12 < 2 ^ 1024 - 2 ^ 970
     \<and> calculate_estimated_time 12 (u ''auto_ui'') = Inr 486"
proof -
  have b: "base_time_of (u ''auto_ui'') = 45"
    by (simp add: base_time_of_def base_times_def u_def)
  have h: "base_time_of (u ''auto_ui'') * 12 < 2 ^ 1024 - 2 ^ 970" by (simp add: b)
  have "calculate_estimated_time 12 (u ''auto_ui'') = Inr 486"
    using calculate_estimated_time_value [of 12 "u ''auto_ui''", OF _ h]
    by (simp add: b tier_tenths_def)
  then show ?thesis using h by simp
qed

text \<open>
  The claim of 45 seconds per test case for the test type \<open>automated_ui\<close> fails: three
  such test cases are estimated at 90 seconds, not at 135.
\<close>

theorem calculate_estimated_time_automated_ui_counterexample:
  "calculate_estimated_time 3 (test_type_value AUTOMATED_UI) = Inr 90
     \<and> max 60 (min (45 * 3 * 10 div 10) 1800) = (135::int)"
proof -
  have b: "base_time_of (test_type_value AUTOMATED_UI) = 30"
    by (simp add: base_time_of_def base_times_def u_def)
  have "calculate_estimated_time 3 (test_type_value AUTOMATED_UI)
          = Inr (max 60 (min ((base_time_of (test_type_value AUTOMATED_UI) * 3 * tier_tenths 3) div 10) 1800))"
    by (rule estimated_time_closed_form) (simp_all only: b, simp_all)
  then show ?thesis by (simp only: b tier_tenths_def) simp
qed

text \<open>
  Within the range of the integer-to-float conversion the estimate is returned and lies
  in [60, 1800], and of two counts in the same tier the larger one does not get the
  smaller estimate.
\<close>

lemma estimated_time_bounds_mono:
  assumes "0 \<le> c1" and "c1 \<le> c2" and "base_time_of t * c2 < 2 ^ 1024 - 2 ^ 970"
  shows "\<exists>v1 v2. calculate_estimated_time c1 t = Inr v1 \<and> calculate_estimated_time c2 t = Inr v2
           \<and> 60 \<le> v1 \<and> v1 \<le> 1800 \<and> 60 \<le> v2 \<and> v2 \<le> 1800
           \<and> (tier_tenths c1 = tier_tenths c2 \<longrightarrow> v1 \<le> v2)"
proof -
  define b where "b = base_time_of t"
  have b: "25 \<le> b" "b \<le> 45" using base_time_of_cases [of t] by (auto simp: b_def)
  have c2: "0 \<le> c2" using assms by simp
  have "b * c1 \<le> b * c2" using assms(2) b by (intro mult_left_mono) simp_all
  then have h1: "base_time_of t * c1 < 2 ^ 1024 - 2 ^ 970" using assms(3) by (simp add: b_def)
  let ?v = "\<lambda>c. max 60 (min ((b * c * tier_tenths c) div 10) 1800)"
  have e1: "calculate_estimated_time c1 t = Inr (?v c1)"
    using estimated_time_closed_form [OF assms(1) h1] by (simp add: b_def)
  have e2: "calculate_estimated_time c2 t = Inr (?v c2)"
    using estimated_time_closed_form [OF c2 assms(3)] by (simp add: b_def)
  have mono: "?v c1 \<le> ?v c2" if "tier_tenths c1 = tier_tenths c2"
  proof -
    have k: "0 \<le> tier_tenths c2" by (simp add: tier_tenths_def)
    have "b * c1 * tier_tenths c2 \<le> b * c2 * tier_tenths c2"
      using \<open>b * c1 \<le> b * c2\<close> k by (rule mult_right_mono)
    then have "(b * c1 * tier_tenths c2) div 10 \<le> (b * c2 * tier_tenths c2) div 10"
      by (rule zdiv_mono1) simp
    then show ?thesis unfolding that by simp
  qed
  have "60 \<le> ?v c1 \<and> ?v c1 \<le> 1800 \<and> 60 \<le> ?v c2 \<and> ?v c2 \<le> 1800" by simp
  then show ?thesis using e1 e2 mono by blast
qed

text \<open>
  The estimate is returned exactly for the counts within that range: from
  \<open>2 ^ 1024 - 2 ^ 970\<close> on, the conversion of the integer product to a float raises.
\<close>

lemma estimated_time_returns_iff:
  assumes "0 \<le> c"
  shows "(\<exists>v. calculate_estimated_time c t = Inr v) \<longleftrightarrow> base_time_of t * c < 2 ^ 1024 - 2 ^ 970"
proof
  assume "\<exists>v. calculate_estimated_time c t = Inr v"
  then show "base_time_of t * c < 2 ^ 1024 - 2 ^ 970"
    using estimated_time_raises [of t c] by (cases "base_time_of t * c < 2 ^ 1024 - 2 ^ 970") auto
next
  assume "base_time_of t * c < 2 ^ 1024 - 2 ^ 970"
  then show "\<exists>v. calculate_estimated_time c t = Inr v"
    using estimated_time_closed_form [OF assms] by simp
qed


lemma sublist_trans:
  assumes "sublist a b" "sublist b c"
  shows "sublist a c"
proof -
  obtain ps ss where b: "b = ps @ a @ ss" using assms(1) by (auto simp: sublist_def)
  obtain ps' ss' where c: "c = ps' @ b @ ss'" using assms(2) by (auto simp: sublist_def)
  have "c = (ps' @ ps) @ a @ (ss @ ss')" by (simp add: b c)
  then show ?thesis unfolding sublist_def by blast
qed

lemma strip_chars_sublist: "sublist (strip_chars p s) s"
proof -
  have "sublist (dropWhile p (rev (dropWhile p s))) (rev (dropWhile p s))" by simp
  then have "sublist (strip_chars p s) (dropWhile p s)"
    unfolding strip_chars_def by (simp add: sublist_rev_left)
  moreover have "sublist (dropWhile p s) s" by simp
  ultimately show ?thesis by (rule sublist_trans)
qed

lemma strip_chars_ends:
  assumes "strip_chars p s \<noteq> []"
  shows "\<not> p (hd (strip_chars p s))" and "\<not> p (last (strip_chars p s))"
proof -
  define d where "d = dropWhile p s"
  define e where "e = dropWhile p (rev d)"
  have r: "strip_chars p s = rev e" by (simp add: strip_chars_def d_def e_def)
  have e: "e \<noteq> []" using assms r by simp
  then have d: "d \<noteq> []" by (auto simp: e_def)
  have "\<not> p (hd e)" using e unfolding e_def by (rule hd_dropWhile)
  then show "\<not> p (last (strip_chars p s))" using e by (simp add: r last_rev)
  have "suffix e (rev d)" unfolding e_def by (rule suffix_dropWhile)
  then obtain zs where "rev d = zs @ e" by (auto simp: suffix_def)
  then have "last (rev d) = last e" using e by simp
  then have "last e = hd d" using d by (simp add: last_rev)
  moreover have "\<not> p (hd d)" using d unfolding d_def by (rule hd_dropWhile)
  ultimately show "\<not> p (hd (strip_chars p s))" using e by (simp add: r hd_rev)
qed

lemma strip_chars_id:
  assumes "s = [] \<or> (\<not> p (hd s) \<and> \<not> p (last s))"
  shows "strip_chars p s = s"
proof (cases "s = []")
  case True
  then show ?thesis by (simp add: strip_chars_def)
next
  case False
  with assms have h: "\<not> p (hd s)" and l: "\<not> p (last s)" by auto
  have d: "dropWhile p s = s" using False h by (cases s) auto
  have "s = butlast s @ [last s]" using False by simp
  then have r: "rev s = last s # rev (butlast s)" by (metis rev.simps(2) rev_append rev_rev_ident rev_singleton_conv append_Cons append_Nil)
  have "dropWhile p (last s # rev (butlast s)) = last s # rev (butlast s)" using l by simp
  then have "dropWhile p (rev s) = rev s" by (simp only: r [symmetric])
  then show ?thesis by (simp add: strip_chars_def d)
qed

lemma strip_chars_idem: "strip_chars p (strip_chars p s) = strip_chars p s"
  using strip_chars_ends [of p s] by (intro strip_chars_id) auto

lemma strip_replicate:
  assumes "\<not> is_space a" "is_space b" "0 < n"
  shows "strip (replicate n a @ replicate k b) = replicate n a"
proof -
  have "dropWhile is_space (replicate n a @ replicate k b) = replicate n a @ replicate k b"
    using assms by (cases n) auto
  moreover have "rev (replicate n a @ replicate k b) = replicate k b @ replicate n a" by simp
  moreover have "dropWhile is_space (replicate k b @ replicate n a) = replicate n a"
    using assms by (cases n) (auto simp: dropWhile_append)
  ultimately show ?thesis by (simp add: strip_def strip_chars_def)
qed

text \<open>
  C5, as the code has it: the text is valid exactly when its trimmed form is non-empty and
  at least 20 characters long and the text itself, untrimmed, is at most 10000 characters
  long; a result carries a message exactly when it is invalid.
\<close>

theorem validate_requirements_text_valid_iff:
  "fst (validate_requirements_text text)
     = (strip text \<noteq> [] \<and> 20 \<le> length (strip text) \<and> length text \<le> 10000)
   \<and> (snd (validate_requirements_text text) = None) = fst (validate_requirements_text text)"
  by (auto simp: validate_requirements_text_def strip_def strip_chars_def)

text \<open>
  The upper bound is not on the trimmed length: twenty letters followed by 9981 spaces
  have trimmed length 20 and are rejected as too long.
\<close>

theorem validate_requirements_text_padded_counterexample:
  "strip padded_requirements \<noteq> [] \<and> 20 \<le> length (strip padded_requirements)
     \<and> length (strip padded_requirements) \<le> 10000
     \<and> validate_requirements_text padded_requirements = (False, Some TooLong)"
proof -
  have s: "strip padded_requirements = replicate 20 97"
    unfolding padded_requirements_def by (rule strip_replicate) (simp_all add: is_space_def)
  have l: "length padded_requirements = 10001" by (simp add: padded_requirements_def)
  have n: "padded_requirements \<noteq> []" using l by auto
  show ?thesis by (simp add: validate_requirements_text_def s l n)
qed

lemma underscore_not_forbidden: "underscore \<notin> set forbidden_chars"
  by (simp add: forbidden_chars_def u_def underscore_def)

lemma replace_forbidden_set: "set (replace_forbidden s) \<inter> set forbidden_chars = {}"
  using underscore_not_forbidden by (auto simp: replace_forbidden_def)

lemma replace_forbidden_id:
  assumes "set s \<inter> set forbidden_chars = {}"
  shows "replace_forbidden s = s"
proof -
  have "map (\<lambda>c. if c \<in> set forbidden_chars then underscore else c) s = map (\<lambda>c. c) s"
    using assms by (intro map_cong) auto
  then show ?thesis by (simp add: replace_forbidden_def)
qed

lemma collapse_underscores_set: "set (collapse_underscores s) \<subseteq> set s"
  by (induction s rule: collapse_underscores.induct) auto

lemma collapse_underscores_hd: "\<exists>t. collapse_underscores (b # cs) = b # t"
  by (induction "b # cs" arbitrary: b cs rule: collapse_underscores.induct) auto

lemma collapse_underscores_no_run:
  "\<not> sublist [underscore, underscore] (collapse_underscores s)"
proof (induction s rule: collapse_underscores.induct)
  case (1 a b cs)
  obtain t where t: "collapse_underscores (b # cs) = b # t"
    using collapse_underscores_hd by blast
  show ?case
  proof (cases "a = underscore \<and> b = underscore")
    case True
    then show ?thesis using 1 by simp
  next
    case False
    then have ih: "\<not> sublist [underscore, underscore] (b # t)" using 1 t by simp
    have "\<not> prefix [underscore, underscore] (a # b # t)" using False by auto
    then have "\<not> sublist [underscore, underscore] (a # b # t)"
      using ih by (simp add: sublist_Cons_right)
    moreover have "collapse_underscores (a # b # cs) = a # collapse_underscores (b # cs)"
      using False by auto
    ultimately show ?thesis by (simp only: t not_False_eq_True)
  qed
qed (simp_all add: sublist_Cons_right)

lemma collapse_underscores_id:
  "\<not> sublist [underscore, underscore] s \<Longrightarrow> collapse_underscores s = s"
proof (induction s rule: collapse_underscores.induct)
  case (1 a b cs)
  have p: "\<not> prefix [underscore, underscore] (a # b # cs)"
    using "1.prems" by (simp add: sublist_Cons_right)
  have s: "\<not> sublist [underscore, underscore] (b # cs)"
    using "1.prems" by (simp add: sublist_Cons_right [of _ a])
  have ne: "\<not> (a = underscore \<and> b = underscore)" using p by auto
  then have "collapse_underscores (a # b # cs) = a # collapse_underscores (b # cs)" by auto
  moreover have "collapse_underscores (b # cs) = b # cs" using "1.IH"(2) ne s by blast
  ultimately show ?case by simp
qed simp_all

lemma no_run_append:
  assumes "\<not> sublist [c, c] a" "c \<notin> set b"
  shows "\<not> sublist [c, c] (a @ b)"
proof
  assume "sublist [c, c] (a @ b)"
  then consider "sublist [c, c] a" | "sublist [c, c] b"
    | xs1 xs2 where "[c, c] = xs1 @ xs2" "suffix xs1 a" "prefix xs2 b"
    by (auto simp: sublist_append)
  then show False
  proof cases
    case 1
    then show ?thesis using assms(1) by simp
  next
    case 2
    then have "set [c, c] \<subseteq> set b" by (rule set_mono_sublist)
    then show ?thesis using assms(2) by simp
  next
    case 3
    show ?thesis
    proof (cases "xs2 = []")
      case True
      then have "suffix [c, c] a" using 3 by simp
      then show ?thesis using assms(1) by auto
    next
      case False
      then have "last xs2 = c" using 3(1) by (metis last_appendR last.simps list.discI)
      moreover have "last xs2 \<in> set xs2" using False by simp
      moreover have "set xs2 \<subseteq> set b" using 3(3) by (rule set_mono_prefix)
      ultimately show ?thesis using assms(2) by auto
    qed
  qed
qed

lemma sanitize_core_clean:
  assumes "sanitize_core x \<noteq> []"
  shows "clean_name (sanitize_core x)"
proof -
  let ?c = "collapse_underscores (replace_forbidden x)"
  have sub: "sublist (sanitize_core x) ?c"
    unfolding sanitize_core_def by (rule strip_chars_sublist)
  have "set (sanitize_core x) \<subseteq> set ?c" using sub by (rule set_mono_sublist)
  also have "\<dots> \<subseteq> set (replace_forbidden x)" by (rule collapse_underscores_set)
  finally have 1: "set (sanitize_core x) \<inter> set forbidden_chars = {}"
    using replace_forbidden_set [of x] by auto
  have 2: "\<not> sublist [underscore, underscore] (sanitize_core x)"
    using sub collapse_underscores_no_run [of "replace_forbidden x"] sublist_trans by blast
  have 3: "hd (sanitize_core x) \<noteq> underscore" "last (sanitize_core x) \<noteq> underscore"
    using strip_chars_ends [of "\<lambda>c. c = underscore" ?c] assms
    unfolding sanitize_core_def by auto
  show ?thesis using assms 1 2 3 by (simp add: clean_name_def)
qed

lemma sanitize_core_id:
  assumes "clean_name s"
  shows "sanitize_core s = s"
proof -
  have "replace_forbidden s = s" using assms by (intro replace_forbidden_id) (simp add: clean_name_def)
  moreover have "collapse_underscores s = s"
    using assms by (intro collapse_underscores_id) (simp add: clean_name_def)
  moreover have "strip_chars (\<lambda>c. c = underscore) s = s"
    using assms by (intro strip_chars_id) (simp add: clean_name_def)
  ultimately show ?thesis by (simp add: sanitize_core_def)
qed

lemma digits_set: "set (digits n) \<subseteq> {48..57}"
proof (induction n rule: digits.induct)
  case (1 n)
  show ?case
  proof (cases "n < 10")
    case True
    then show ?thesis by (subst digits.simps) auto
  next
    case False
    have "48 + n mod 10 \<in> {48..57}" by (simp; presburger)
    then show ?thesis using False 1 by (subst digits.simps) auto
  qed
qed

lemma digits_nonempty: "digits n \<noteq> []"
  by (subst digits.simps) simp

lemma str_of_int_set: "set (str_of_int i) \<subseteq> {45} \<union> {48..57}"
  using digits_set by (auto simp: str_of_int_def)

lemma str_of_int_last: "str_of_int i \<noteq> [] \<and> last (str_of_int i) \<in> {48..57}"
proof -
  have "last (digits n) \<in> {48..57}" for n
    using digits_set [of n] digits_nonempty [of n] last_in_set by blast
  then show ?thesis using digits_nonempty by (auto simp: str_of_int_def)
qed

lemma default_name_clean: "clean_name (u ''file_'' @ str_of_int now)"
proof -
  let ?d = "str_of_int now"
  have d: "set ?d \<subseteq> {45} \<union> {48..57}" by (rule str_of_int_set)
  have f: "set forbidden_chars = {60, 62, 58, 34, 47, 92, 124, 63, 42}"
    by (simp add: forbidden_chars_def u_def)
  have 1: "set (u ''file_'' @ ?d) \<inter> set forbidden_chars = {}"
    using d unfolding f by (auto simp: u_def)
  have "\<not> sublist [underscore, underscore] (u ''file_'')"
    by (simp add: u_def underscore_def sublist_Cons_right)
  moreover have "underscore \<notin> set ?d" using d by (auto simp: underscore_def)
  ultimately have 2: "\<not> sublist [underscore, underscore] (u ''file_'' @ ?d)"
    by (rule no_run_append)
  have l: "?d \<noteq> []" "last ?d \<in> {48..57}" using str_of_int_last [of now] by auto
  have 3: "last (u ''file_'' @ ?d) \<noteq> underscore" using l by (auto simp: underscore_def)
  have 4: "hd (u ''file_'' @ ?d) \<noteq> underscore" by (simp add: u_def underscore_def)
  show ?thesis using 1 2 3 4 l by (simp add: clean_name_def)
qed

lemma helpers_sanitize_filename_clean: "clean_name (helpers_sanitize_filename now x)"
  using sanitize_core_clean [of x] default_name_clean [of now]
  by (auto simp: helpers_sanitize_filename_def Let_def)

lemma helpers_sanitize_filename_fixed:
  assumes "clean_name s"
  shows "helpers_sanitize_filename now s = s"
  using assms sanitize_core_id [OF assms]
  by (simp add: helpers_sanitize_filename_def Let_def clean_name_def)

lemma file_clean: "clean_name (u ''file'')"
proof -
  have f: "set forbidden_chars = {60, 62, 58, 34, 47, 92, 124, 63, 42}"
    by (simp add: forbidden_chars_def u_def)
  show ?thesis unfolding clean_name_def f
    by (simp add: u_def underscore_def sublist_Cons_right)
qed

lemma append_py_clean:
  assumes "clean_name s"
  shows "clean_name (s @ u ''.py'')"
proof -
  have f: "set forbidden_chars = {60, 62, 58, 34, 47, 92, 124, 63, 42}"
    by (simp add: forbidden_chars_def u_def)
  have 1: "set (s @ u ''.py'') \<inter> set forbidden_chars = {}"
    using assms unfolding clean_name_def f by (auto simp: u_def)
  have "underscore \<notin> set (u ''.py'')" by (simp add: u_def underscore_def)
  then have 2: "\<not> sublist [underscore, underscore] (s @ u ''.py'')"
    using assms by (intro no_run_append) (simp_all add: clean_name_def)
  have 3: "hd (s @ u ''.py'') \<noteq> underscore" "last (s @ u ''.py'') \<noteq> underscore"
    using assms by (simp_all add: clean_name_def u_def underscore_def)
  have "s \<noteq> []" using assms by (simp add: clean_name_def)
  then show ?thesis using 1 2 3 by (simp add: clean_name_def)
qed

lemma validators_sanitize_filename_clean:
  "clean_name (validators_sanitize_filename x) \<and> suffix (u ''.py'') (validators_sanitize_filename x)"
proof -
  define r0 where "r0 = (if sanitize_core x = [] then u ''file'' else sanitize_core x)"
  have r0: "clean_name r0"
    using sanitize_core_clean [of x] file_clean by (auto simp: r0_def)
  have v: "validators_sanitize_filename x = (if \<not> suffix (u ''.py'') r0 then r0 @ u ''.py'' else r0)"
    by (simp add: validators_sanitize_filename_def r0_def Let_def)
  show ?thesis
  proof (cases "suffix (u ''.py'') r0")
    case True
    then show ?thesis using r0 by (simp add: v)
  next
    case False
    then show ?thesis using append_py_clean [OF r0] by (simp add: v suffix_def)
  qed
qed

lemma validators_sanitize_filename_fixed:
  assumes "clean_name s" "suffix (u ''.py'') s"
  shows "validators_sanitize_filename s = s"
  using assms sanitize_core_id [OF assms(1)]
  by (simp add: validators_sanitize_filename_def Let_def clean_name_def)

text \<open>
  C8: both filename sanitizers are idempotent (for the helper, whatever the clock shows at
  the two calls), their results contain none of the characters \<open><>:"/\\|?*\<close>, are not empty
  and neither begin nor end with an underscore, and the validator's result ends with
  \<open>.py\<close>.
\<close>

theorem sanitize_filename_idempotent_clean:
  "helpers_sanitize_filename now' (helpers_sanitize_filename now x) = helpers_sanitize_filename now x
   \<and> validators_sanitize_filename (validators_sanitize_filename x) = validators_sanitize_filename x
   \<and> set (helpers_sanitize_filename now x) \<inter> set forbidden_chars = {}
   \<and> set (validators_sanitize_filename x) \<inter> set forbidden_chars = {}
   \<and> helpers_sanitize_filename now x \<noteq> []
   \<and> hd (helpers_sanitize_filename now x) \<noteq> underscore
   \<and> last (helpers_sanitize_filename now x) \<noteq> underscore
   \<and> validators_sanitize_filename x \<noteq> []
   \<and> hd (validators_sanitize_filename x) \<noteq> underscore
   \<and> last (validators_sanitize_filename x) \<noteq> underscore
   \<and> suffix (u ''.py'') (validators_sanitize_filename x)"
proof -
  have h: "clean_name (helpers_sanitize_filename now x)"
    by (rule helpers_sanitize_filename_clean)
  have v: "clean_name (validators_sanitize_filename x)"
    "suffix (u ''.py'') (validators_sanitize_filename x)"
    using validators_sanitize_filename_clean [of x] by auto
  have "helpers_sanitize_filename now' (helpers_sanitize_filename now x)
          = helpers_sanitize_filename now x"
    using h by (rule helpers_sanitize_filename_fixed)
  moreover have "validators_sanitize_filename (validators_sanitize_filename x)
          = validators_sanitize_filename x"
    using v by (rule validators_sanitize_filename_fixed)
  ultimately show ?thesis using h v by (simp add: clean_name_def)
qed

text \<open>
  C10: when no running task is registered under the job id, \<open>cancel_job\<close> returns false
  and the manager's state, the stored job record included, is what it was: the record
  keeps its status, message and \<open>updated_at\<close>.
\<close>

theorem cancel_job_not_running:
  assumes "running_tasks self jid = None"
  shows "cancel_job env now jid self = (Inr False, self)
       \<and> job_storage (snd (cancel_job env now jid self)) jid = job_storage self jid"
  using assms by (simp add: cancel_job_def)

theorem cancel_job_not_running_witness:
  "running_tasks idle_manager 7 = None
   \<and> cancel_job (cooperative_task 7) 300 7 idle_manager = (Inr False, idle_manager)
   \<and> job_storage (snd (cancel_job (cooperative_task 7) 300 7 idle_manager)) 7 = Some finished_job
   \<and> status finished_job = COMPLETED \<and> updated_at finished_job = Some 200"
proof -
  have h: "running_tasks idle_manager 7 = None" by (simp add: idle_manager_def)
  have s: "job_storage idle_manager 7 = Some finished_job" by (simp add: idle_manager_def)
  show ?thesis
    using cancel_job_not_running [OF h, of "cooperative_task 7" 300] h s
    by (simp add: finished_job_def)
qed

lemma flm_row_good:
  assumes "row_ok alo blo i j2len" "alo \<le> i" "i < ahi"
    and "row_ok alo blo (Suc i) (fst st)" "good_match alo ahi blo bhi (snd st)"
  shows "row_ok alo blo (Suc i) (fst (flm_row i blo bhi j2len js st))
       \<and> good_match alo ahi blo bhi (snd (flm_row i blo bhi j2len js st))"
  using assms(4,5)
proof (induction js arbitrary: st)
  case Nil
  then show ?case by simp
next
  case (Cons j js)
  obtain new besti bestj bestsize where st: "st = (new, (besti, bestj, bestsize))"
    by (cases st) auto
  show ?case
  proof (cases "j < blo")
    case True
    then show ?thesis using Cons st by simp
  next
    case False
    note jblo = this
    show ?thesis
    proof (cases "j \<ge> bhi")
      case True
      then show ?thesis using Cons.prems jblo st by simp
    next
      case False
      define k where "k = (if j = 0 then 0 else case j2len (j - 1) of None \<Rightarrow> 0 | Some v \<Rightarrow> v) + 1"
      have k: "k + alo \<le> Suc i \<and> k + blo \<le> j + 1"
      proof (cases "j = 0 \<or> j2len (j - 1) = None")
        case True
        then have "k = 1" by (auto simp: k_def)
        then show ?thesis using assms(2) jblo by simp
      next
        case False
        then obtain v where v: "j2len (j - 1) = Some v" and j: "j \<noteq> 0" by auto
        have "v + alo \<le> i \<and> v + blo \<le> (j - 1) + 1"
          using assms(1) v unfolding row_ok_def by blast
        moreover have "k = v + 1" using v j by (simp add: k_def)
        ultimately show ?thesis using j by simp
      qed
      have new: "row_ok alo blo (Suc i) (new(j \<mapsto> k))"
        using Cons.prems(1) k jblo unfolding row_ok_def st by auto
      have g: "good_match alo ahi blo bhi (Suc i - k, Suc j - k, k)"
        using k assms(3) False unfolding good_match_def by auto
      have step: "flm_row i blo bhi j2len (j # js) st =
          flm_row i blo bhi j2len js
            (new(j \<mapsto> k), if k > bestsize then (i + 1 - k, j + 1 - k, k) else (besti, bestj, bestsize))"
        using jblo False by (simp add: st k_def Let_def)
      have "good_match alo ahi blo bhi
          (if k > bestsize then (i + 1 - k, j + 1 - k, k) else (besti, bestj, bestsize))"
        using g Cons.prems(2) st by simp
      then show ?thesis
        unfolding step using new by (intro Cons.IH) (simp_all only: fst_conv snd_conv)
    qed
  qed
qed

lemma flm_rows_good:
  assumes "row_ok alo blo i0 j2len" "alo \<le> i0" "good_match alo ahi blo bhi best"
  shows "good_match alo ahi blo bhi (snd (flm_rows a b blo bhi [i0..<ahi] (j2len, best)))"
  using assms
proof (induction "ahi - i0" arbitrary: i0 j2len best)
  case 0
  then show ?case by simp
next
  case (Suc n)
  then have lt: "i0 < ahi" by simp
  then have u: "[i0..<ahi] = i0 # [Suc i0..<ahi]" by (rule upt_conv_Cons)
  let ?r = "flm_row i0 blo bhi j2len (chain_b b (a ! i0)) (Map.empty, best)"
  have "row_ok alo blo (Suc i0) (fst ?r) \<and> good_match alo ahi blo bhi (snd ?r)"
    using Suc.prems lt by (intro flm_row_good) (simp_all add: row_ok_def)
  moreover have "n = ahi - Suc i0" using Suc.hyps(2) by simp
  ultimately have "good_match alo ahi blo bhi
      (snd (flm_rows a b blo bhi [Suc i0..<ahi] (fst ?r, snd ?r)))"
    using Suc.prems(2) by (intro Suc.hyps(1)) simp_all
  then show ?case by (simp add: u)
qed

lemma extend_back_good:
  "good_match alo ahi blo bhi m \<Longrightarrow> good_match alo ahi blo bhi (extend_back ok a b alo blo m)"
proof (induction ok a b alo blo m rule: extend_back.induct)
  case (1 ok a b alo blo besti bestj bestsize)
  show ?case
  proof (cases "besti > alo \<and> bestj > blo \<and> ok (b ! (bestj - 1)) \<and> a ! (besti - 1) = b ! (bestj - 1)")
    case True
    have "good_match alo ahi blo bhi (besti - 1, bestj - 1, bestsize + 1)"
      using "1.prems" True by (auto simp: good_match_def)
    then show ?thesis using "1.IH" True by (subst extend_back.simps) simp
  next
    case False
    then show ?thesis using "1.prems" by (subst extend_back.simps) auto
  qed
qed

lemma extend_forward_good:
  "good_match alo ahi blo bhi m \<Longrightarrow> good_match alo ahi blo bhi (extend_forward ok a b ahi bhi m)"
proof (induction ok a b ahi bhi m rule: extend_forward.induct)
  case (1 ok a b ahi bhi besti bestj bestsize)
  show ?case
  proof (cases "besti + bestsize < ahi \<and> bestj + bestsize < bhi \<and> ok (b ! (bestj + bestsize))
         \<and> a ! (besti + bestsize) = b ! (bestj + bestsize)")
    case True
    have "good_match alo ahi blo bhi (besti, bestj, bestsize + 1)"
      using "1.prems" True by (auto simp: good_match_def)
    then show ?thesis using "1.IH" True by (subst extend_forward.simps) simp
  next
    case False
    then show ?thesis using "1.prems" by (subst extend_forward.simps) auto
  qed
qed

lemma find_longest_match_good:
  "good_match alo ahi blo bhi (find_longest_match a b alo ahi blo bhi)"
proof -
  have "good_match alo ahi blo bhi
      (snd (flm_rows a b blo bhi [alo..<ahi] (Map.empty, (alo, blo, 0))))"
    by (intro flm_rows_good) (simp_all add: row_ok_def good_match_def)
  then show ?thesis
    unfolding find_longest_match_def Let_def
    by (intro extend_forward_good extend_back_good)
qed

lemma find_longest_match_bounds:
  assumes "find_longest_match a b alo ahi blo bhi = (i, j, k)" "k \<noteq> 0"
  shows "alo \<le> i" "i + k \<le> ahi" "blo \<le> j" "j + k \<le> bhi"
  using find_longest_match_good [of alo ahi blo bhi a b] assms
  by (auto simp: good_match_def)

lemma find_longest_match_range:
  assumes "(i, j, k) = find_longest_match a b alo ahi blo bhi" "0 < k"
  shows "alo \<le> i \<and> i + k \<le> ahi"
  using find_longest_match_bounds [of a b alo ahi blo bhi i j k] assms by simp

termination match_loop
  apply (relation "measure (\<lambda>(a, b, queue, blocks). \<Sum>(alo, ahi, blo, bhi)\<leftarrow>queue. 2 * (ahi - alo) + 1)")
    apply simp
   apply (auto dest!: find_longest_match_range)
  done

declare match_loop.simps [simp del]

lemma check_coverage_loop_eq:
  "check_coverage_loop py tcs reqs (cov, recs) =
     (cov @ map (coverage_entry_of py tcs) reqs,
      recs @ map coverage_recommendation
               (filter (\<lambda>req. filter (\<lambda>tc. covers_requirement py tc req) tcs = []) reqs))"
proof (induction reqs arbitrary: cov recs)
  case Nil
  then show ?case by simp
next
  case (Cons req reqs)
  show ?case
    by (simp add: Cons.IH Let_def coverage_entry_of_def coverage_recommendation_def)
qed

lemma filter_nonempty_iff: "(filter P xs \<noteq> []) = (\<exists>x\<in>set xs. P x)"
  by (simp add: filter_empty_conv)

lemma float_round_exact:
  assumes "0 < k" "k < 2 ^ 53" "- 1074 \<le> j" "of_int k * pow2 j < 2 ^ 1024"
  shows "float_round (of_int k * pow2 j) = Finite (of_int k * pow2 j)"
proof -
  have r: "round_binary64 (of_int k * pow2 j) = of_int k * pow2 j"
    using assms(1-3) by (rule round_binary64_exact)
  have "0 < of_int k * pow2 j" using assms(1) by simp
  then have "\<bar>of_int k * pow2 j\<bar> < 2 ^ 1024" using assms(4) by simp
  then show ?thesis by (simp add: float_round_finite r)
qed

lemma float_round_0 [simp]: "float_round 0 = Finite 0"
  by (simp add: float_round_def round_binary64_def overflows_def)

text \<open>
  C6: the coverage check returns a result; its entries are, in order, the first 50 trimmed
  lines of the text that are non-blank and longer than 8 characters; an entry is covered
  exactly when some test case's space-joined title, story and steps contain the line, both
  lower-cased; the recommendations are one high-severity coverage recommendation for each
  uncovered line, in order; and the percentage is the quotient of the two counts times
  100 in float arithmetic, or 0 when there is no line.
\<close>

theorem check_coverage_result:
  "\<exists>r. check_coverage py tcs text = Inr r
     \<and> map requirement (coverage r) = requirement_lines text
     \<and> requirement_lines text
         = take 50 (map strip (filter (\<lambda>line. strip line \<noteq> [] \<and> 8 < length (strip line))
                                 (splitlines text)))
     \<and> (\<forall>e \<in> set (coverage r).
           covered e = (\<exists>tc \<in> set tcs.
             sublist (lower py (requirement e))
               (lower py (join (u '' '') [title tc, story tc, join (u '' '') (steps tc)]))))
     \<and> cov_recommendations r
         = map (\<lambda>req. \<lparr>rec_type = u ''coverage'', severity = u ''high'',
                        rec_message = u ''Requirement not covered: '' @ take 80 req,
                        action = u ''Create test case for this requirement''\<rparr>)
             (filter (\<lambda>req. \<not> (\<exists>tc \<in> set tcs.
                 sublist (lower py req)
                   (lower py (join (u '' '') [title tc, story tc, join (u '' '') (steps tc)]))))
               (requirement_lines text))
     \<and> coverage_percent r
         = (if requirement_lines text = [] then Finite 0
            else float_mul
                   (float_round (of_nat (length (filter covered (coverage r)))
                                   / of_nat (length (requirement_lines text))))
                   (Finite 100))"
proof -
  define reqs where "reqs = requirement_lines text"
  define cov where "cov = map (coverage_entry_of py tcs) reqs"
  define recs where "recs = map coverage_recommendation
      (filter (\<lambda>req. filter (\<lambda>tc. covers_requirement py tc req) tcs = []) reqs)"
  define percent where "percent =
      (if reqs = [] then Finite 0
       else float_mul (float_round (of_nat (length (filter covered cov)) / of_nat (length reqs)))
              (Finite 100))"
  define r where "r = \<lparr>coverage = cov, coverage_percent = percent, cov_recommendations = recs\<rparr>"
  have loop: "check_coverage_loop py tcs reqs ([], []) = (cov, recs)"
    by (simp add: check_coverage_loop_eq cov_def recs_def)
  have len: "length cov = length reqs" by (simp add: cov_def)
  have ne: "(cov = []) = (reqs = [])" by (simp add: cov_def)
  have 1: "check_coverage py tcs text = Inr r"
    unfolding check_coverage_def reqs_def [symmetric] loop
    by (simp add: r_def percent_def int_truediv_def len ne)
  have 2: "map requirement (coverage r) = reqs"
    by (simp add: r_def cov_def coverage_entry_of_def comp_def)
  have 3: "\<forall>e \<in> set (coverage r).
           covered e = (\<exists>tc \<in> set tcs.
             sublist (lower py (requirement e))
               (lower py (join (u '' '') [title tc, story tc, join (u '' '') (steps tc)])))"
    by (auto simp: r_def cov_def coverage_entry_of_def filter_empty_conv
        covers_requirement_def Let_def)
  have 4: "cov_recommendations r
         = map (\<lambda>req. \<lparr>rec_type = u ''coverage'', severity = u ''high'',
                        rec_message = u ''Requirement not covered: '' @ take 80 req,
                        action = u ''Create test case for this requirement''\<rparr>)
             (filter (\<lambda>req. \<not> (\<exists>tc \<in> set tcs.
                 sublist (lower py req)
                   (lower py (join (u '' '') [title tc, story tc, join (u '' '') (steps tc)]))))
               reqs)"
    by (simp add: r_def recs_def coverage_recommendation_def [abs_def] filter_empty_conv
        covers_requirement_def Let_def)
  have 5: "coverage_percent r
         = (if reqs = [] then Finite 0
            else float_mul
                   (float_round (of_nat (length (filter covered (coverage r))) / of_nat (length reqs)))
                   (Finite 100))"
    by (simp add: r_def percent_def)
  have 6: "reqs = take 50 (map strip (filter (\<lambda>line. strip line \<noteq> [] \<and> 8 < length (strip line))
                                 (splitlines text)))"
    by (simp add: reqs_def requirement_lines_def)
  show ?thesis
    using 1 2 3 4 5 6 unfolding reqs_def [symmetric] by blast
qed

lemma splitlines_two:
  "splitlines two_requirements = [u ''  login WORKS '', u ''short'', u ''export to csv'']"
  by (simp add: two_requirements_def splitlines_def u_def is_linebreak_def)

lemma strip_two:
  "strip (u ''  login WORKS '') = u ''login WORKS''"
  "strip (u ''short'') = u ''short''"
  "strip (u ''export to csv'') = u ''export to csv''"
  by (simp_all add: u_def strip_def strip_chars_def is_space_def)

lemma requirement_lines_two:
  "requirement_lines two_requirements = [u ''login WORKS'', u ''export to csv'']"
  unfolding requirement_lines_def splitlines_two
  by (simp add: strip_two) (simp add: u_def)

lemma login_case_covers:
  "sublist (lower ascii_library (u ''login WORKS''))
     (lower ascii_library (join (u '' '')
        [title login_case, story login_case, join (u '' '') (steps login_case)]))"
  "\<not> sublist (lower ascii_library (u ''export to csv''))
     (lower ascii_library (join (u '' '')
        [title login_case, story login_case, join (u '' '') (steps login_case)]))"
  by code_simp+

lemma float_half_percent:
  "float_mul (float_round (1 / 2)) (Finite 100) = Finite 50"
proof -
  have "float_round (of_int 1 * pow2 (- 1)) = Finite (of_int 1 * pow2 (- 1))"
    by (rule float_round_exact) (simp_all add: pow2_def)
  then have h: "float_round (1 / 2) = Finite (1 / 2)" by (simp add: pow2_def)
  have "float_round (of_int 50 * pow2 0) = Finite (of_int 50 * pow2 0)"
    by (rule float_round_exact) simp_all
  then show ?thesis by (simp add: h)
qed

theorem check_coverage_result_witness:
  "\<exists>r. check_coverage ascii_library [login_case] two_requirements = Inr r
     \<and> map requirement (coverage r) = [u ''login WORKS'', u ''export to csv'']
     \<and> map covered (coverage r) = [True, False]
     \<and> map rec_message (cov_recommendations r) = [u ''Requirement not covered: export to csv'']
     \<and> map severity (cov_recommendations r) = [u ''high'']
     \<and> coverage_percent r = Finite 50"
proof -
  let ?txt = "\<lambda>tc. lower ascii_library (join (u '' '') [title tc, story tc, join (u '' '') (steps tc)])"
  obtain r where r: "check_coverage ascii_library [login_case] two_requirements = Inr r"
    and req: "map requirement (coverage r) = requirement_lines two_requirements"
    and cov: "\<forall>e \<in> set (coverage r). covered e = (\<exists>tc \<in> set [login_case].
                 sublist (lower ascii_library (requirement e)) (?txt tc))"
    and recs: "cov_recommendations r
         = map (\<lambda>req. \<lparr>rec_type = u ''coverage'', severity = u ''high'',
                        rec_message = u ''Requirement not covered: '' @ take 80 req,
                        action = u ''Create test case for this requirement''\<rparr>)
             (filter (\<lambda>req. \<not> (\<exists>tc \<in> set [login_case]. sublist (lower ascii_library req) (?txt tc)))
               (requirement_lines two_requirements))"
    and pct: "coverage_percent r
         = (if requirement_lines two_requirements = [] then Finite 0
            else float_mul
                   (float_round (of_nat (length (filter covered (coverage r)))
                                   / of_nat (length (requirement_lines two_requirements))))
                   (Finite 100))"
    using check_coverage_result [of ascii_library "[login_case]" two_requirements] by blast
  from req obtain e1 e2 where es: "coverage r = [e1, e2]"
      "requirement e1 = u ''login WORKS''" "requirement e2 = u ''export to csv''"
    unfolding requirement_lines_two by (auto simp: map_eq_Cons_conv)
  have c1: "covered e1" and c2: "\<not> covered e2"
    using cov login_case_covers by (simp_all add: es)
  have m: "map rec_message (cov_recommendations r) = [u ''Requirement not covered: export to csv'']"
    "map severity (cov_recommendations r) = [u ''high'']"
    unfolding recs requirement_lines_two using login_case_covers by (simp_all add: u_def)
  have p: "coverage_percent r = Finite 50"
    unfolding pct requirement_lines_two using c1 c2 float_half_percent by (simp add: es)
  show ?thesis using r req c1 c2 m p unfolding requirement_lines_two by (simp add: es)
qed

lemma sum_list_insort:
  fixes f :: "'a \<Rightarrow> nat"
  shows "sum_list (map f (insort_key g x xs)) = f x + sum_list (map f xs)"
  by (induction xs) (auto simp: add.left_commute)

lemma sum_list_sort:
  fixes f :: "'a \<Rightarrow> nat"
  shows "sum_list (map f (sort_key g xs)) = sum_list (map f xs)"
  by (induction xs) (simp_all add: sum_list_insort)

lemma merge_adjacent_sum:
  "sum_list (map block_size (merge_adjacent m rest acc))
     = sum_list (map block_size acc) + block_size m + sum_list (map block_size rest)"
proof (induction m rest acc rule: merge_adjacent.induct)
  case (1 i1 j1 k1 non_adjacent)
  then show ?case by (simp add: block_size_def)
next
  case (2 i1 j1 k1 i2 j2 k2 rest non_adjacent)
  then show ?case by (simp add: block_size_def)
qed

lemma match_loop_sum:
  "sum_list (map block_size (match_loop a b queue acc))
       \<le> sum_list (map block_size acc) + sum_list (map a_span queue)
   \<and> sum_list (map block_size (match_loop a b queue acc))
       \<le> sum_list (map block_size acc) + sum_list (map b_span queue)"
proof (induction a b queue acc rule: match_loop.induct)
  case (1 a b matching_blocks)
  then show ?case by (simp add: match_loop.simps)
next
  case (2 a b alo ahi blo bhi queue matching_blocks)
  obtain i j k where f: "find_longest_match a b alo ahi blo bhi = (i, j, k)"
    by (cases "find_longest_match a b alo ahi blo bhi") auto
  show ?case
  proof (cases "k = 0")
    case True
    have "match_loop a b ((alo, ahi, blo, bhi) # queue) matching_blocks
        = match_loop a b queue matching_blocks"
      using f True by (simp add: match_loop.simps)
    then show ?thesis using "2.IH"(2) [of i "(j, k)" j k] f True by simp
  next
    case False
    let ?q = "(if i + k < ahi \<and> j + k < bhi then [(i + k, ahi, j + k, bhi)] else [])
               @ (if alo < i \<and> blo < j then [(alo, i, blo, j)] else []) @ queue"
    have bd: "alo \<le> i" "i + k \<le> ahi" "blo \<le> j" "j + k \<le> bhi"
      using find_longest_match_bounds [OF f False] by auto
    have step: "match_loop a b ((alo, ahi, blo, bhi) # queue) matching_blocks
        = match_loop a b ?q (matching_blocks @ [(i, j, k)])"
      using f False by (simp add: match_loop.simps)
    have ih: "sum_list (map block_size (match_loop a b ?q (matching_blocks @ [(i, j, k)])))
         \<le> sum_list (map block_size (matching_blocks @ [(i, j, k)])) + sum_list (map a_span ?q)
       \<and> sum_list (map block_size (match_loop a b ?q (matching_blocks @ [(i, j, k)])))
         \<le> sum_list (map block_size (matching_blocks @ [(i, j, k)])) + sum_list (map b_span ?q)"
      using "2.IH"(1) [of i "(j, k)" j k] f False by simp
    have qa: "k + sum_list (map a_span ?q) \<le> a_span (alo, ahi, blo, bhi) + sum_list (map a_span queue)"
      using bd by (auto simp: a_span_def)
    have qb: "k + sum_list (map b_span ?q) \<le> b_span (alo, ahi, blo, bhi) + sum_list (map b_span queue)"
      using bd by (auto simp: b_span_def)
    have bs: "sum_list (map block_size (matching_blocks @ [(i, j, k)]))
        = sum_list (map block_size matching_blocks) + k"
      by (simp add: block_size_def)
    show ?thesis unfolding step using ih qa qb bs by simp
  qed
qed

lemma matches_le:
  "sum_list (map (\<lambda>(i, j, k). k) (get_matching_blocks a b)) \<le> length a"
  "sum_list (map (\<lambda>(i, j, k). k) (get_matching_blocks a b)) \<le> length b"
proof -
  have e: "(\<lambda>(i, j, k). k) = block_size" by (auto simp: block_size_def fun_eq_iff)
  have s: "sum_list (map block_size (get_matching_blocks a b))
      = sum_list (map block_size (match_loop a b [(0, length a, 0, length b)] []))"
    by (simp add: get_matching_blocks_def Let_def merge_adjacent_sum sum_list_sort block_size_def)
  show "sum_list (map (\<lambda>(i, j, k). k) (get_matching_blocks a b)) \<le> length a"
    unfolding e s using match_loop_sum [of a b "[(0, length a, 0, length b)]" "[]"]
    by (simp add: a_span_def)
  show "sum_list (map (\<lambda>(i, j, k). k) (get_matching_blocks a b)) \<le> length b"
    unfolding e s using match_loop_sum [of a b "[(0, length a, 0, length b)]" "[]"]
    by (simp add: b_span_def)
qed

lemma pow2_plus1: "pow2 (e + 1) = 2 * pow2 e"
proof -
  have "pow2 1 = 2" by (simp add: pow2_def)
  then show ?thesis using pow2_add [of 1 e] by (simp add: add.commute)
qed

lemma round_quotient_range:
  assumes "0 < y" and e: "e = max (flog2 y) (- 1022)"
  shows "0 \<le> round_half_even (y / pow2 (e - 52))"
    and "round_half_even (y / pow2 (e - 52)) \<le> 2 ^ 53"
proof -
  let ?ulp = "pow2 (e - 52)"
  have "0 \<le> y / ?ulp" using assms(1) by (simp add: less_imp_le)
  then have "round_half_even 0 \<le> round_half_even (y / ?ulp)" by (rule round_half_even_mono)
  then show "0 \<le> round_half_even (y / ?ulp)" using round_half_even_of_int [of 0] by simp
  have "y < pow2 (flog2 y + 1)" using assms(1) by (rule flog2_bounds)
  also have "\<dots> \<le> pow2 (e + 1)" by (rule pow2_mono) (simp add: e)
  finally have "y / ?ulp < pow2 (e + 1) / ?ulp" by (simp add: divide_strict_right_mono)
  also have "pow2 (e + 1) / ?ulp = pow2 53" using pow2_diff [of "e + 1" "e - 52"] by simp
  finally have "y / ?ulp \<le> of_int (2 ^ 53)" by (simp add: pow2_numeral_53)
  then have "round_half_even (y / ?ulp) \<le> round_half_even (of_int (2 ^ 53))"
    by (rule round_half_even_mono)
  then show "round_half_even (y / ?ulp) \<le> 2 ^ 53" by (simp only: round_half_even_of_int)
qed

lemma round_binary64_0 [simp]: "round_binary64 0 = 0"
  by (simp add: round_binary64_def)

lemma round_binary64_idem:
  assumes "0 \<le> y"
  shows "round_binary64 (round_binary64 y) = round_binary64 y"
proof (cases "y = 0")
  case True
  then show ?thesis by (simp add: round_binary64_def)
next
  case False
  then have y: "0 < y" using assms by simp
  define e where "e = max (flog2 y) (- 1022)"
  define q where "q = round_half_even (y / pow2 (e - 52))"
  have q: "0 \<le> q" "q \<le> 2 ^ 53" using round_quotient_range [OF y e_def] by (simp_all add: q_def)
  have z: "round_binary64 y = of_int q * pow2 (e - 52)"
    using y by (simp add: round_binary64_pos e_def q_def)
  have e: "- 1022 \<le> e" by (simp add: e_def)
  consider "q = 0" | "0 < q" "q < 2 ^ 53" | "q = 2 ^ 53" using q by linarith
  then show ?thesis
  proof cases
    case 1
    then have r0: "round_binary64 y = 0" by (simp add: z)
    show ?thesis by (simp only: r0 round_binary64_0)
  next
    case 2
    then show ?thesis unfolding z using e by (intro round_binary64_exact) simp_all
  next
    case 3
    have "of_int q * pow2 (e - 52) = of_int (2 ^ 52) * pow2 (e - 51)"
      using pow2_plus1 [of "e - 52"] by (simp add: 3 algebra_simps)
    moreover have "round_binary64 (of_int (2 ^ 52) * pow2 (e - 51)) = of_int (2 ^ 52) * pow2 (e - 51)"
      using e by (intro round_binary64_exact) simp_all
    ultimately show ?thesis by (simp only: z)
  qed
qed

lemma round_binary64_double:
  assumes "1 \<le> y"
  shows "round_binary64 (2 * y) = 2 * round_binary64 y"
proof -
  have y: "0 < y" using assms by simp
  have "pow2 0 \<le> y" using assms by simp
  then have "pow2 0 < pow2 (flog2 y + 1)" using flog2_bounds(2) [OF y] by simp
  then have "0 < flog2 y + 1" by (simp only: pow2_less_iff)
  then have f0: "0 \<le> flog2 y" by simp
  have "pow2 (flog2 y + 1) \<le> 2 * y"
    using flog2_bounds(1) [OF y] by (simp only: pow2_plus1)
  moreover have "2 * y < pow2 (flog2 y + 1 + 1)"
    using flog2_bounds(2) [OF y] by (simp only: pow2_plus1 [of "flog2 y + 1"])
  ultimately have f2: "flog2 (2 * y) = flog2 y + 1" using y by (intro flog2_unique) simp_all
  have m1: "max (flog2 y) (- 1022) = flog2 y" using f0 by simp
  have m2: "max (flog2 y + 1) (- 1022) = flog2 y + 1" using f0 by simp
  have u: "pow2 (flog2 y - 51) = 2 * pow2 (flog2 y - 52)"
    using pow2_plus1 [of "flog2 y - 52"] by simp
  have "round_binary64 (2 * y)
      = of_int (round_half_even (2 * y / pow2 (flog2 y + 1 - 52))) * pow2 (flog2 y + 1 - 52)"
    using y by (simp add: round_binary64_pos f2 m2)
  also have "2 * y / pow2 (flog2 y + 1 - 52) = y / pow2 (flog2 y - 52)" by (simp add: u)
  also have "of_int (round_half_even (y / pow2 (flog2 y - 52))) * pow2 (flog2 y + 1 - 52)
      = 2 * (of_int (round_half_even (y / pow2 (flog2 y - 52))) * pow2 (flog2 y - 52))"
    by (simp add: u)
  also have "\<dots> = 2 * round_binary64 y" using y by (simp add: round_binary64_pos m1)
  finally show ?thesis .
qed

lemma round_binary64_1 [simp]: "round_binary64 1 = 1"
  using round_binary64_of_int [of 1] by simp

lemma round_binary64_unit:
  assumes "0 \<le> x" "x \<le> 1"
  shows "0 \<le> round_binary64 x" "round_binary64 x \<le> 1" "float_round x = Finite (round_binary64 x)"
proof -
  show 0: "0 \<le> round_binary64 x" using assms(1) by (rule round_binary64_nonneg)
  show 1: "round_binary64 x \<le> 1" using round_binary64_mono [OF assms] by simp
  have "\<bar>round_binary64 x\<bar> < 2 ^ 1024" using 0 1 by simp
  then show "float_round x = Finite (round_binary64 x)" by (rule float_round_finite)
qed

lemma calculate_ratio_bounds:
  assumes "2 * M \<le> T" "T < 2 ^ 64"
  shows "\<exists>r. calculate_ratio M T = Inr (Finite r) \<and> 0 \<le> r \<and> r \<le> 1 \<and> (2 * M = T \<longrightarrow> r = 1)"
proof (cases "T = 0")
  case True
  then show ?thesis by (simp add: calculate_ratio_def)
next
  case False
  define m :: rat where "m = round_binary64 (of_nat M)"
  define t :: rat where "t = round_binary64 (of_nat T)"
  have "round_binary64 1 \<le> t" unfolding t_def using False by (intro round_binary64_mono) simp_all
  then have t1: "1 \<le> t" by simp
  have m2: "2 * m = round_binary64 (2 * of_nat M)"
  proof (cases "M = 0")
    case True
    then show ?thesis by (simp add: m_def round_binary64_def)
  next
    case False
    then have "(1::rat) \<le> of_nat M" by simp
    then show ?thesis unfolding m_def by (rule round_binary64_double [symmetric])
  qed
  have "(2::rat) * of_nat M \<le> of_nat T" using assms(1) by (metis of_nat_le_iff of_nat_mult of_nat_numeral)
  then have xt: "2 * m \<le> t" unfolding m2 t_def by (intro round_binary64_mono) simp_all
  have m0: "0 \<le> m" unfolding m_def by (intro round_binary64_nonneg) simp
  have idem: "round_binary64 (2 * m) = 2 * m"
    unfolding m2 by (intro round_binary64_idem) simp
  have "(of_nat T :: rat) \<le> of_int 1 * pow2 64"
    using assms(2) by (simp add: pow2_def)
  then have "t \<le> round_binary64 (of_int 1 * pow2 64)"
    unfolding t_def by (intro round_binary64_mono) simp_all
  also have "\<dots> = of_int 1 * pow2 64" by (rule round_binary64_exact) simp_all
  finally have t64: "t \<le> 2 ^ 64" by (simp add: pow2_def)
  have "\<bar>round_binary64 (2 * m)\<bar> < 2 ^ 1024"
    unfolding idem using xt t64 m0 by simp
  then have "float_round (2 * m) = Finite (2 * m)"
    by (simp add: float_round_finite idem)
  then have x: "float_mul (Finite 2) (Finite m) = Finite (2 * m)" by simp
  have fl: "float_of_len M = Finite m" "float_of_len T = Finite t"
    by (simp_all add: float_of_len_def m_def t_def)
  have q: "0 \<le> 2 * m / t" "2 * m / t \<le> 1" using xt t1 m0 by simp_all
  have d: "float_truediv (Finite (2 * m)) (Finite t) = Inr (Finite (round_binary64 (2 * m / t)))"
    using t1 round_binary64_unit(3) [OF q] by simp
  have cr: "calculate_ratio M T = Inr (Finite (round_binary64 (2 * m / t)))"
    unfolding calculate_ratio_def fl x d using False by simp
  have "2 * M = T \<longrightarrow> round_binary64 (2 * m / t) = 1"
  proof
    assume "2 * M = T"
    then have "(of_nat T :: rat) = 2 * of_nat M" by (metis of_nat_mult of_nat_numeral)
    then have "t = 2 * m" by (simp add: t_def m2)
    then show "round_binary64 (2 * m / t) = 1" using t1 by simp
  qed
  then show ?thesis using cr round_binary64_unit(1,2) [OF q] by blast
qed

lemma ratio_bounds:
  assumes "length a < 2 ^ 63" "length b < 2 ^ 63"
  shows "\<exists>r. ratio a b = Inr (Finite r) \<and> 0 \<le> r \<and> r \<le> 1"
proof -
  let ?M = "sum_list (map (\<lambda>(i, j, k). k) (get_matching_blocks a b))"
  have "2 * ?M \<le> length a + length b" using matches_le [of a b] by simp
  moreover have "length a + length b < 2 ^ 64" using assms by simp
  ultimately show ?thesis
    using calculate_ratio_bounds [of ?M "length a + length b"]
    by (auto simp: ratio_def Let_def)
qed

lemma float_0_6_exact: "round_binary64 float_0_6 = float_0_6"
proof -
  have "round_binary64 (of_int 5404319552844595 * pow2 (- 53)) = of_int 5404319552844595 * pow2 (- 53)"
    by (rule round_binary64_exact) simp_all
  then show ?thesis by (simp add: float_0_6_def pow2_def)
qed

lemma float_0_4_exact: "round_binary64 float_0_4 = float_0_4"
proof -
  have "round_binary64 (of_int 7205759403792794 * pow2 (- 54)) = of_int 7205759403792794 * pow2 (- 54)"
    by (rule round_binary64_exact) simp_all
  then show ?thesis by (simp add: float_0_4_def pow2_def)
qed

lemma float_0_6_0_4: "float_0_6 + float_0_4 = 1" "0 \<le> float_0_6" "0 \<le> float_0_4"
  by (simp_all add: float_0_6_def float_0_4_def)

lemma weighted_sum_bounds:
  assumes "0 \<le> ts" "ts \<le> 1" "0 \<le> ss" "ss \<le> 1"
  shows "\<exists>s. float_add (float_mul (Finite ts) (Finite float_0_6))
                 (float_mul (Finite ss) (Finite float_0_4)) = Finite s
           \<and> 0 \<le> s \<and> s \<le> 1 \<and> (ts = 1 \<and> ss = 1 \<longrightarrow> s = 1)"
proof -
  define p where "p = round_binary64 (ts * float_0_6)"
  define q where "q = round_binary64 (ss * float_0_4)"
  have a: "0 \<le> ts * float_0_6" "ts * float_0_6 \<le> float_0_6"
    using assms float_0_6_0_4 by (simp_all add: mult_left_le_one_le)
  have b: "0 \<le> ss * float_0_4" "ss * float_0_4 \<le> float_0_4"
    using assms float_0_6_0_4 by (simp_all add: mult_left_le_one_le)
  have p: "0 \<le> p" "p \<le> float_0_6"
    using round_binary64_nonneg [OF a(1)] round_binary64_mono [OF a] 
    by (simp_all add: p_def float_0_6_exact)
  have q: "0 \<le> q" "q \<le> float_0_4"
    using round_binary64_nonneg [OF b(1)] round_binary64_mono [OF b]
    by (simp_all add: q_def float_0_4_exact)
  have le1: "float_0_6 \<le> 1" "float_0_4 \<le> 1" by (simp_all add: float_0_6_def float_0_4_def)
  have fp: "float_mul (Finite ts) (Finite float_0_6) = Finite p"
    using round_binary64_unit(3) [of "ts * float_0_6"] a le1 by (simp add: p_def)
  have fq: "float_mul (Finite ss) (Finite float_0_4) = Finite q"
    using round_binary64_unit(3) [of "ss * float_0_4"] b le1 by (simp add: q_def)
  have s: "0 \<le> p + q" "p + q \<le> 1" using p q float_0_6_0_4(1) by linarith+
  have fs: "float_add (Finite p) (Finite q) = Finite (round_binary64 (p + q))"
    using round_binary64_unit(3) [OF s] by simp
  have "ts = 1 \<and> ss = 1 \<longrightarrow> round_binary64 (p + q) = 1"
    by (auto simp: p_def q_def float_0_6_exact float_0_4_exact float_0_6_0_4(1))
  then show ?thesis
    unfolding fp fq fs using round_binary64_unit(1,2) [OF s] by blast
qed

lemma chain_b_cases:
  "chain_b a x = [] \<or> chain_b a x = filter (\<lambda>j. a ! j = x) [0..<length a]"
  by (simp add: chain_b_def Let_def)

lemma chain_b_mem:
  assumes "j \<in> set (chain_b a x)"
  shows "j < length a" "a ! j = x"
  using assms chain_b_cases [of a x] by auto

lemma chain_b_self:
  assumes "in_b2j a i" "i < length a"
  shows "i \<in> set (chain_b a (a ! i))"
  using assms chain_b_cases [of a "a ! i"] by (auto simp: in_b2j_def)

lemma chain_b_sorted: "sorted_wrt (<) (chain_b a x)"
proof -
  have "sorted_wrt (<) (filter (\<lambda>j. a ! j = x) [0..<length a])"
    by (intro sorted_wrt_filter) (simp add: sorted_wrt_upt)
  then show ?thesis using chain_b_cases [of a x] by auto
qed

lemma chain_b_in_b2j:
  assumes "j \<in> set (chain_b a x)"
  shows "in_b2j a j"
proof -
  have "a ! j = x" using assms by (rule chain_b_mem)
  then show ?thesis using assms by (auto simp: in_b2j_def)
qed

lemma stretch_pos: "in_b2j a i \<Longrightarrow> 1 \<le> stretch a i"
  by (cases i) simp_all

lemma stretch_zero: "\<not> in_b2j a i \<Longrightarrow> stretch a i = 0"
  by (cases i) simp_all

lemma stretch_step: "in_b2j a i \<Longrightarrow> 0 < i \<Longrightarrow> stretch a i = Suc (stretch a (i - 1))"
  by (cases i) simp_all

text \<open>The value that the inner loop stores at \<open>j\<close> in row \<open>i\<close>.\<close>

lemma cell_bounds:
  assumes p: "prev_row a i j2len" and i: "in_b2j a i" and j: "in_b2j a j"
  defines "k \<equiv> (if j = 0 then 0 else case j2len (j - 1) of None \<Rightarrow> 0 | Some v \<Rightarrow> v) + 1"
  shows "1 \<le> k" "k \<le> stretch a i" "k \<le> stretch a j" "j = i \<Longrightarrow> k = stretch a i"
proof -
  show "1 \<le> k" by (simp add: k_def)
  show "k \<le> stretch a i"
  proof (cases "j = 0 \<or> j2len (j - 1) = None")
    case True
    then have "k = 1" by (auto simp: k_def)
    then show ?thesis using stretch_pos [OF i] by simp
  next
    case False
    then obtain v where v: "j2len (j - 1) = Some v" "j \<noteq> 0" by auto
    then have "0 < i" "v \<le> stretch a (i - 1)" using p unfolding prev_row_def by blast+
    then show ?thesis using v stretch_step [OF i] by (simp add: k_def)
  qed
  show "k \<le> stretch a j"
  proof (cases "j = 0 \<or> j2len (j - 1) = None")
    case True
    then have "k = 1" by (auto simp: k_def)
    then show ?thesis using stretch_pos [OF j] by simp
  next
    case False
    then obtain v where v: "j2len (j - 1) = Some v" "j \<noteq> 0" by auto
    then have "v \<le> stretch a (j - 1)" using p unfolding prev_row_def by blast
    then show ?thesis using v stretch_step [OF j] by (simp add: k_def)
  qed
  show "k = stretch a i" if "j = i"
  proof (cases "i = 0")
    case True
    then show ?thesis using that i by (simp add: k_def)
  next
    case False
    then have i0: "0 < i" by simp
    show ?thesis
    proof (cases "in_b2j a (i - 1)")
      case True
      then have "j2len (i - 1) = Some (stretch a (i - 1))"
        using p i0 unfolding prev_row_def by blast
      then show ?thesis using that False stretch_step [OF i i0] by (simp add: k_def)
    next
      case False
      have "j2len (i - 1) = None"
      proof (cases "j2len (i - 1)")
        case (Some v)
        then have "1 \<le> v" "v \<le> stretch a (i - 1)" using p unfolding prev_row_def by blast+
        then show ?thesis using stretch_zero [OF False] by simp
      qed simp
      then show ?thesis
        using that i0 stretch_step [OF i i0] stretch_zero [OF False] by (simp add: k_def)
    qed
  qed
qed

lemma flm_row_this_row:
  assumes p: "prev_row a i j2len" and n: "n = length a"
    and "sorted_wrt (<) todo" "set todo \<subseteq> set (chain_b a (a ! i))" "this_row a i todo st"
  shows "this_row a i [] (flm_row i 0 n j2len todo st)"
  using assms(3-5)
proof (induction todo arbitrary: st)
  case Nil
  then show ?case by simp
next
  case (Cons j rest)
  obtain new besti bestj bestsize where st: "st = (new, (besti, bestj, bestsize))"
    by (cases st) auto
  have jc: "j \<in> set (chain_b a (a ! i))" using Cons.prems(2) by simp
  have jn: "j < n" using chain_b_mem(1) [OF jc] n by simp
  have ii: "in_b2j a i" using jc by (auto simp: in_b2j_def)
  have ij: "in_b2j a j" using jc by (rule chain_b_in_b2j)
  define k where "k = (if j = 0 then 0 else case j2len (j - 1) of None \<Rightarrow> 0 | Some v \<Rightarrow> v) + 1"
  have k: "1 \<le> k" "k \<le> stretch a i" "k \<le> stretch a j" "j = i \<Longrightarrow> k = stretch a i"
    using cell_bounds [OF p ii ij] unfolding k_def by auto
  have inv: "\<forall>j v. new j = Some v \<longrightarrow>
           1 \<le> v \<and> v \<le> stretch a i \<and> v \<le> stretch a j \<and> v \<le> bestsize"
      "in_b2j a i \<and> i \<notin> set (j # rest) \<longrightarrow> new i = Some (stretch a i)"
      "besti = bestj" "\<forall>i' < i. stretch a i' \<le> bestsize"
    using Cons.prems(3) unfolding st this_row_def by auto
  have rest_gt: "\<forall>x \<in> set rest. j < x" using Cons.prems(1) by simp
  have diag: "j = i" if "k > bestsize"
  proof (rule ccontr)
    assume "j \<noteq> i"
    then consider "j < i" | "i < j" by linarith
    then show False
    proof cases
      case 1
      then have "stretch a j \<le> bestsize" using inv(4) by simp
      then show False using k(3) that by simp
    next
      case 2
      then have "i \<notin> set (j # rest)" using rest_gt by auto
      then have "new i = Some (stretch a i)" using inv(2) ii by simp
      then have "stretch a i \<le> bestsize" using inv(1) by blast
      then show False using k(2) that by simp
    qed
  qed
  define st' where "st' = (new(j \<mapsto> k),
      if k > bestsize then (i + 1 - k, j + 1 - k, k) else (besti, bestj, bestsize))"
  have step: "flm_row i 0 n j2len (j # rest) st = flm_row i 0 n j2len rest st'"
    using jn by (simp add: st st'_def k_def Let_def)
  have "this_row a i rest st'"
  proof (cases "k > bestsize")
    case True
    then have ji: "j = i" by (rule diag)
    have "\<forall>j' v. (new(j \<mapsto> k)) j' = Some v \<longrightarrow>
           1 \<le> v \<and> v \<le> stretch a i \<and> v \<le> stretch a j' \<and> v \<le> k"
    proof (intro allI impI)
      fix j' v
      assume h: "(new(j \<mapsto> k)) j' = Some v"
      show "1 \<le> v \<and> v \<le> stretch a i \<and> v \<le> stretch a j' \<and> v \<le> k"
      proof (cases "j' = j")
        case True
        then show ?thesis using h k by auto
      next
        case False
        then have "new j' = Some v" using h by simp
        then have "1 \<le> v \<and> v \<le> stretch a i \<and> v \<le> stretch a j' \<and> v \<le> bestsize"
          using inv(1) by blast
        then show ?thesis using \<open>k > bestsize\<close> by simp
      qed
    qed
    moreover have "(new(j \<mapsto> k)) i = Some (stretch a i)" using ji k(4) by simp
    moreover have "\<forall>i' < i. stretch a i' \<le> k" using inv(4) True by (auto dest: order_trans)
    ultimately have "this_row a i rest (new(j \<mapsto> k), (i + 1 - k, j + 1 - k, k))"
      unfolding this_row_def split_conv using ji by blast
    then show ?thesis unfolding st'_def using True by simp
  next
    case False
    have "\<forall>j' v. (new(j \<mapsto> k)) j' = Some v \<longrightarrow>
           1 \<le> v \<and> v \<le> stretch a i \<and> v \<le> stretch a j' \<and> v \<le> bestsize"
      using inv(1) k False by auto
    moreover have "in_b2j a i \<and> i \<notin> set rest \<longrightarrow> (new(j \<mapsto> k)) i = Some (stretch a i)"
      using inv(2) k(4) by auto
    ultimately have "this_row a i rest (new(j \<mapsto> k), (besti, bestj, bestsize))"
      unfolding this_row_def split_conv using inv(3,4) by blast
    then show ?thesis unfolding st'_def using False by simp
  qed
  moreover have "sorted_wrt (<) rest" "set rest \<subseteq> set (chain_b a (a ! i))"
    using Cons.prems(1,2) by simp_all
  ultimately show ?case unfolding step by (intro Cons.IH)
qed

lemma flm_rows_diagonal:
  assumes n: "n = length a" and "prev_row a i0 j2len"
    and "fst best = fst (snd best)" "\<forall>i' < i0. stretch a i' \<le> snd (snd best)"
  shows "fst (snd (flm_rows a a 0 n [i0..<n] (j2len, best)))
       = fst (snd (snd (flm_rows a a 0 n [i0..<n] (j2len, best))))"
  using assms(2-4)
proof (induction "n - i0" arbitrary: i0 j2len best)
  case 0
  then show ?case by simp
next
  case (Suc m)
  then have lt: "i0 < n" by simp
  then have u: "[i0..<n] = i0 # [Suc i0..<n]" by (rule upt_conv_Cons)
  obtain besti bestj bestsize where best: "best = (besti, bestj, bestsize)" by (cases best) auto
  let ?todo = "chain_b a (a ! i0)"
  define r where "r = flm_row i0 0 n j2len ?todo (Map.empty, best)"
  have start: "this_row a i0 ?todo (Map.empty, best)"
    using Suc.prems(2,3) chain_b_self [of a i0] lt n by (auto simp: this_row_def best)
  have r: "this_row a i0 [] r"
    unfolding r_def using Suc.prems(1) n chain_b_sorted start by (intro flm_row_this_row) simp_all
  obtain new bi bj bs where rr: "r = (new, (bi, bj, bs))" by (cases r) auto
  have inv: "\<forall>j v. new j = Some v \<longrightarrow>
           1 \<le> v \<and> v \<le> stretch a i0 \<and> v \<le> stretch a j \<and> v \<le> bs"
      "in_b2j a i0 \<longrightarrow> new i0 = Some (stretch a i0)" "bi = bj" "\<forall>i' < i0. stretch a i' \<le> bs"
    using r unfolding rr this_row_def by auto
  have p': "prev_row a (Suc i0) new" using inv(1,2) by (auto simp: prev_row_def)
  have "stretch a i0 \<le> bs"
  proof (cases "in_b2j a i0")
    case True
    then show ?thesis using inv(1,2) by blast
  next
    case False
    then show ?thesis by (simp add: stretch_zero)
  qed
  then have all: "\<forall>i' < Suc i0. stretch a i' \<le> snd (snd (bi, bj, bs))"
    using inv(4) by (auto simp: less_Suc_eq)
  have "m = n - Suc i0" using Suc.hyps(2) by simp
  then have "fst (snd (flm_rows a a 0 n [Suc i0..<n] (new, (bi, bj, bs))))
       = fst (snd (snd (flm_rows a a 0 n [Suc i0..<n] (new, (bi, bj, bs)))))"
    using p' inv(3) all by (intro Suc.hyps(1)) simp_all
  then show ?case by (simp add: u r_def [symmetric] rr)
qed

lemma extend_back_diagonal:
  "extend_back (\<lambda>x. \<not> isbjunk x) a a 0 0 (d, d, s) = (0, 0, s + d)"
proof (induction d arbitrary: s)
  case 0
  then show ?case by (subst extend_back.simps) simp
next
  case (Suc d)
  have "extend_back (\<lambda>x. \<not> isbjunk x) a a 0 0 (Suc d, Suc d, s)
      = extend_back (\<lambda>x. \<not> isbjunk x) a a 0 0 (d, d, s + 1)"
    by (subst extend_back.simps) (simp add: isbjunk_def)
  then show ?case by (simp add: Suc.IH)
qed

lemma extend_forward_diagonal:
  "s \<le> n \<Longrightarrow> extend_forward (\<lambda>x. \<not> isbjunk x) a a n n (0, 0, s) = (0, 0, n)"
proof (induction "n - s" arbitrary: s)
  case 0
  then show ?case by (subst extend_forward.simps) simp
next
  case (Suc m)
  then have lt: "s < n" by simp
  have "extend_forward (\<lambda>x. \<not> isbjunk x) a a n n (0, 0, s)
      = extend_forward (\<lambda>x. \<not> isbjunk x) a a n n (0, 0, s + 1)"
    using lt by (subst extend_forward.simps) (simp add: isbjunk_def)
  moreover have "m = n - (s + 1)" "s + 1 \<le> n" using Suc.hyps(2) lt by simp_all
  ultimately show ?case using Suc.hyps(1) [of "s + 1"] by simp
qed

lemma extend_junk_none:
  "extend_back isbjunk a b alo blo m = m" "extend_forward isbjunk a b ahi bhi m = m"
proof -
  obtain i j k where m: "m = (i, j, k)" by (cases m) auto
  show "extend_back isbjunk a b alo blo m = m"
    unfolding m by (subst extend_back.simps) (simp add: isbjunk_def)
  show "extend_forward isbjunk a b ahi bhi m = m"
    unfolding m by (subst extend_forward.simps) (simp add: isbjunk_def)
qed

lemma find_longest_match_self:
  "find_longest_match a a 0 (length a) 0 (length a) = (0, 0, length a)"
proof -
  let ?n = "length a"
  define best where "best = snd (flm_rows a a 0 ?n [0..<?n] (Map.empty, (0, 0, 0)))"
  obtain d e s where b: "best = (d, e, s)" by (cases best) auto
  have "fst best = fst (snd best)"
    unfolding best_def by (intro flm_rows_diagonal) (simp_all add: prev_row_def)
  then have de: "e = d" by (simp add: b)
  have "good_match 0 ?n 0 ?n best"
    unfolding best_def by (intro flm_rows_good) (simp_all add: row_ok_def good_match_def)
  then have ds: "s + d \<le> ?n" by (auto simp: b good_match_def)
  have "find_longest_match a a 0 ?n 0 ?n
      = extend_forward isbjunk a a ?n ?n
          (extend_back isbjunk a a 0 0
            (extend_forward (\<lambda>x. \<not> isbjunk x) a a ?n ?n
              (extend_back (\<lambda>x. \<not> isbjunk x) a a 0 0 best)))"
    by (simp add: find_longest_match_def best_def Let_def)
  also have "\<dots> = (0, 0, ?n)"
    by (simp add: extend_junk_none b de extend_back_diagonal extend_forward_diagonal [OF ds])
  finally show ?thesis .
qed

lemma match_loop_self:
  "sum_list (map block_size (match_loop a a [(0, length a, 0, length a)] [])) = length a"
proof -
  let ?n = "length a"
  have m: "match_loop a a [(0, ?n, 0, ?n)] []
      = (if ?n \<noteq> 0 then match_loop a a [] [(0, 0, ?n)] else match_loop a a [] [])"
    by (subst match_loop.simps) (simp add: find_longest_match_self)
  show ?thesis
  proof (cases "?n = 0")
    case True
    then show ?thesis unfolding m by (simp add: match_loop.simps)
  next
    case False
    then show ?thesis unfolding m by (simp add: match_loop.simps block_size_def)
  qed
qed

lemma matches_self:
  "sum_list (map (\<lambda>(i, j, k). k) (get_matching_blocks a a)) = length a"
proof -
  have e: "(\<lambda>(i, j, k). k) = block_size" by (auto simp: block_size_def fun_eq_iff)
  have "sum_list (map block_size (get_matching_blocks a a))
      = sum_list (map block_size (match_loop a a [(0, length a, 0, length a)] []))"
    by (simp add: get_matching_blocks_def Let_def merge_adjacent_sum sum_list_sort block_size_def)
  then show ?thesis unfolding e by (simp add: match_loop_self)
qed

lemma ratio_self:
  assumes "length a < 2 ^ 63"
  shows "ratio a a = Inr (Finite 1)"
proof -
  have "length a + length a < 2 ^ 64" using assms by simp
  then obtain r where "calculate_ratio (length a) (length a + length a) = Inr (Finite r)"
      "2 * length a = length a + length a \<longrightarrow> r = 1"
    using calculate_ratio_bounds [of "length a" "length a + length a"] by auto
  then show ?thesis by (simp add: ratio_def Let_def matches_self)
qed

lemma weighted_sum_eq:
  assumes "0 \<le> ts" "ts \<le> 1" "0 \<le> ss" "ss \<le> 1"
  shows "float_add (float_mul (Finite ts) (Finite float_0_6))
                 (float_mul (Finite ss) (Finite float_0_4))
       = Finite (round_binary64 (round_binary64 (ts * float_0_6) + round_binary64 (ss * float_0_4)))"
proof -
  define p where "p = round_binary64 (ts * float_0_6)"
  define q where "q = round_binary64 (ss * float_0_4)"
  have le1: "float_0_6 \<le> 1" "float_0_4 \<le> 1" by (simp_all add: float_0_6_def float_0_4_def)
  have a: "0 \<le> ts * float_0_6" "ts * float_0_6 \<le> float_0_6"
    using assms float_0_6_0_4 by (simp_all add: mult_left_le_one_le)
  have b: "0 \<le> ss * float_0_4" "ss * float_0_4 \<le> float_0_4"
    using assms float_0_6_0_4 by (simp_all add: mult_left_le_one_le)
  have p: "0 \<le> p" "p \<le> float_0_6"
    using round_binary64_nonneg [OF a(1)] round_binary64_mono [OF a]
    by (simp_all add: p_def float_0_6_exact)
  have q: "0 \<le> q" "q \<le> float_0_4"
    using round_binary64_nonneg [OF b(1)] round_binary64_mono [OF b]
    by (simp_all add: q_def float_0_4_exact)
  have fp: "float_mul (Finite ts) (Finite float_0_6) = Finite p"
    using round_binary64_unit(3) [of "ts * float_0_6"] a le1 by (simp add: p_def)
  have fq: "float_mul (Finite ss) (Finite float_0_4) = Finite q"
    using round_binary64_unit(3) [of "ss * float_0_4"] b le1 by (simp add: q_def)
  have s: "0 \<le> p + q" "p + q \<le> 1" using p q float_0_6_0_4(1) by linarith+
  show ?thesis
    unfolding fp fq using round_binary64_unit(3) [OF s] by (simp add: p_def q_def)
qed

lemma similarity_eq:
  assumes "ratio (lower py (title A)) (lower py (title B)) = Inr ts"
    and "ratio (lower py (join (u '' '') (steps A))) (lower py (join (u '' '') (steps B))) = Inr ss"
  shows "similarity py A B
       = Inr (float_add (float_mul ts (Finite float_0_6)) (float_mul ss (Finite float_0_4)))"
  using assms by (simp add: similarity_def)

text \<open>
  C7, as the code has it: the score of two test cases is a float in [0, 1], and it is
  exactly 1.0 when the lower-cased titles agree and the lower-cased space-joined steps
  agree. The lengths of Python strings are below \<open>2 ^ 63\<close>. Nothing is said about the two
  orders of the arguments.
\<close>

theorem similarity_unit_interval:
  assumes "length (lower py (title A)) < 2 ^ 63" and "length (lower py (title B)) < 2 ^ 63"
    and "length (lower py (join (u '' '') (steps A))) < 2 ^ 63"
    and "length (lower py (join (u '' '') (steps B))) < 2 ^ 63"
  shows "\<exists>s. similarity py A B = Inr (Finite s) \<and> 0 \<le> s \<and> s \<le> 1
           \<and> (lower py (title A) = lower py (title B)
                \<and> lower py (join (u '' '') (steps A)) = lower py (join (u '' '') (steps B))
              \<longrightarrow> s = 1)"
proof -
  let ?ta = "lower py (title A)" and ?tb = "lower py (title B)"
  let ?sa = "lower py (join (u '' '') (steps A))" and ?sb = "lower py (join (u '' '') (steps B))"
  obtain ts where ts: "ratio ?ta ?tb = Inr (Finite ts)" "0 \<le> ts" "ts \<le> 1"
    using ratio_bounds [OF assms(1,2)] by blast
  obtain ss where ss: "ratio ?sa ?sb = Inr (Finite ss)" "0 \<le> ss" "ss \<le> 1"
    using ratio_bounds [OF assms(3,4)] by blast
  obtain s where s: "float_add (float_mul (Finite ts) (Finite float_0_6))
                 (float_mul (Finite ss) (Finite float_0_4)) = Finite s"
      "0 \<le> s" "s \<le> 1" "ts = 1 \<and> ss = 1 \<longrightarrow> s = 1"
    using weighted_sum_bounds [OF ts(2,3) ss(2,3)] by blast
  have sim: "similarity py A B = Inr (Finite s)"
    using similarity_eq [OF ts(1) ss(1)] s(1) by simp
  have "s = 1" if "?ta = ?tb \<and> ?sa = ?sb"
  proof -
    have "ratio ?ta ?tb = Inr (Finite 1)" using that ratio_self [OF assms(2)] by simp
    moreover have "ratio ?sa ?sb = Inr (Finite 1)" using that ratio_self [OF assms(4)] by simp
    ultimately have "ts = 1 \<and> ss = 1" using ts(1) ss(1) by simp
    then show ?thesis using s(4) by simp
  qed
  then show ?thesis using sim s(2,3) by blast
qed

lemma lower_tide:
  "lower ascii_library (title tide_case) = u ''tide''"
  "lower ascii_library (title diet_case) = u ''diet''"
  "lower ascii_library (title tide_upper_case) = u ''tide''"
  "lower ascii_library (join (u '' '') (steps tide_case)) = []"
  "lower ascii_library (join (u '' '') (steps diet_case)) = []"
  "lower ascii_library (join (u '' '') (steps tide_upper_case)) = []"
  by (simp_all add: ascii_library_def ascii_lower_def tide_case_def diet_case_def
      tide_upper_case_def u_def)

theorem similarity_unit_interval_witness:
  "length (lower ascii_library (title tide_case)) < 2 ^ 63
   \<and> length (lower ascii_library (title tide_upper_case)) < 2 ^ 63
   \<and> length (lower ascii_library (join (u '' '') (steps tide_case))) < 2 ^ 63
   \<and> length (lower ascii_library (join (u '' '') (steps tide_upper_case))) < 2 ^ 63
   \<and> lower ascii_library (title tide_case) = lower ascii_library (title tide_upper_case)
   \<and> lower ascii_library (join (u '' '') (steps tide_case))
       = lower ascii_library (join (u '' '') (steps tide_upper_case))
   \<and> similarity ascii_library tide_case tide_upper_case = Inr (Finite 1)"
proof -
  have h: "length (lower ascii_library (title tide_case)) < 2 ^ 63"
    "length (lower ascii_library (title tide_upper_case)) < 2 ^ 63"
    "length (lower ascii_library (join (u '' '') (steps tide_case))) < 2 ^ 63"
    "length (lower ascii_library (join (u '' '') (steps tide_upper_case))) < 2 ^ 63"
    by (simp_all only: lower_tide) (simp_all add: u_def)
  have e: "lower ascii_library (title tide_case) = lower ascii_library (title tide_upper_case)"
    "lower ascii_library (join (u '' '') (steps tide_case))
       = lower ascii_library (join (u '' '') (steps tide_upper_case))"
    by (simp_all add: lower_tide)
  obtain s where "similarity ascii_library tide_case tide_upper_case = Inr (Finite s)"
      "lower ascii_library (title tide_case) = lower ascii_library (title tide_upper_case)
         \<and> lower ascii_library (join (u '' '') (steps tide_case))
             = lower ascii_library (join (u '' '') (steps tide_upper_case)) \<longrightarrow> s = 1"
    using similarity_unit_interval [OF h] by blast
  then have "similarity ascii_library tide_case tide_upper_case = Inr (Finite 1)"
    using e by simp
  then show ?thesis using h e by simp
qed

lemma calculate_ratio_1_8: "calculate_ratio 1 8 = Inr (Finite (1 / 4))"
proof -
  have a: "round_binary64 (of_nat 1) = 1" "round_binary64 (of_nat 8) = 8"
    using round_binary64_of_int [of 1] round_binary64_of_int [of 8] by simp_all
  have "float_round (of_int 2 * pow2 0) = Finite (of_int 2 * pow2 0)"
    by (rule float_round_exact) simp_all
  then have b: "float_round 2 = Finite 2" by simp
  have "float_round (of_int 1 * pow2 (- 2)) = Finite (of_int 1 * pow2 (- 2))"
    by (rule float_round_exact) (simp_all add: pow2_def)
  then have c: "float_round (1 / 4) = Finite (1 / 4)" by (simp add: pow2_def)
  show ?thesis
    unfolding calculate_ratio_def float_of_len_def a by (simp add: b c)
qed

lemma calculate_ratio_2_8: "calculate_ratio 2 8 = Inr (Finite (1 / 2))"
proof -
  have a: "round_binary64 (of_nat 2) = 2" "round_binary64 (of_nat 8) = 8"
    using round_binary64_of_int [of 2] round_binary64_of_int [of 8] by simp_all
  have "float_round (of_int 4 * pow2 0) = Finite (of_int 4 * pow2 0)"
    by (rule float_round_exact) simp_all
  then have b: "float_round 4 = Finite 4" by simp
  have "float_round (of_int 1 * pow2 (- 1)) = Finite (of_int 1 * pow2 (- 1))"
    by (rule float_round_exact) (simp_all add: pow2_def)
  then have c: "float_round (1 / 2) = Finite (1 / 2)" by (simp add: pow2_def)
  show ?thesis
    unfolding calculate_ratio_def float_of_len_def a by (simp add: b c)
qed

lemma matches_tide_diet:
  "sum_list (map (\<lambda>(i, j, k). k) (get_matching_blocks (u ''tide'') (u ''diet''))) = 1"
  "sum_list (map (\<lambda>(i, j, k). k) (get_matching_blocks (u ''diet'') (u ''tide''))) = 2"
  by code_simp+

lemma ratio_tide_diet:
  "ratio (u ''tide'') (u ''diet'') = Inr (Finite (1 / 4))"
  "ratio (u ''diet'') (u ''tide'') = Inr (Finite (1 / 2))"
proof -
  have l: "length (u ''tide'') + length (u ''diet'') = 8"
    "length (u ''diet'') + length (u ''tide'') = 8" by (simp_all add: u_def)
  show "ratio (u ''tide'') (u ''diet'') = Inr (Finite (1 / 4))"
    unfolding ratio_def Let_def matches_tide_diet l by (rule calculate_ratio_1_8)
  show "ratio (u ''diet'') (u ''tide'') = Inr (Finite (1 / 2))"
    unfolding ratio_def Let_def matches_tide_diet l by (rule calculate_ratio_2_8)
qed

lemma ratio_empty: "ratio [] [] = Inr (Finite 1)"
  using ratio_self [of "[]"] by simp

text \<open>
  The score is not symmetric: with the titles \<open>tide\<close> and \<open>diet\<close> the title ratio is 0.25
  in one order and 0.5 in the other.
\<close>

theorem similarity_symmetry_counterexample:
  "similarity ascii_library tide_case diet_case \<noteq> similarity ascii_library diet_case tide_case"
proof -
  let ?x1 = "round_binary64 (1 / 4 * float_0_6) + round_binary64 (1 * float_0_4)"
  let ?x2 = "round_binary64 (1 / 2 * float_0_6) + round_binary64 (1 * float_0_4)"
  have s1: "similarity ascii_library tide_case diet_case = Inr (Finite (round_binary64 ?x1))"
    using similarity_eq [of ascii_library tide_case diet_case "Finite (1 / 4)" "Finite 1"]
      weighted_sum_eq [of "1 / 4" 1]
    by (simp add: lower_tide ratio_tide_diet ratio_empty)
  have s2: "similarity ascii_library diet_case tide_case = Inr (Finite (round_binary64 ?x2))"
    using similarity_eq [of ascii_library diet_case tide_case "Finite (1 / 2)" "Finite 1"]
      weighted_sum_eq [of "1 / 2" 1]
    by (simp add: lower_tide ratio_tide_diet ratio_empty)
  have v1: "1 / 4 * float_0_6 = of_int 5404319552844595 * pow2 (- 55)"
    by (simp add: float_0_6_def pow2_def)
  have v2: "1 / 2 * float_0_6 = of_int 5404319552844595 * pow2 (- 54)"
    by (simp add: float_0_6_def pow2_def)
  have e1: "round_binary64 (1 / 4 * float_0_6) = 1 / 4 * float_0_6"
    unfolding v1 by (rule round_binary64_exact) simp_all
  have e2: "round_binary64 (1 / 2 * float_0_6) = 1 / 2 * float_0_6"
    unfolding v2 by (rule round_binary64_exact) simp_all
  have e3: "round_binary64 (1 * float_0_4) = float_0_4"
    by (simp only: mult_1 float_0_4_exact)
  have x1: "?x1 \<le> float_0_6"
    unfolding e1 e3 by (simp add: float_0_6_def float_0_4_def)
  have x2: "of_int 5 * pow2 (- 3) \<le> ?x2"
    unfolding e2 e3 by (simp add: float_0_6_def float_0_4_def pow2_def)
  have "0 \<le> ?x1" unfolding e1 e3 by (simp add: float_0_6_def float_0_4_def)
  then have "round_binary64 ?x1 \<le> round_binary64 float_0_6"
    using x1 by (rule round_binary64_mono)
  then have "round_binary64 ?x1 \<le> float_0_6" by (simp only: float_0_6_exact)
  moreover have "round_binary64 (of_int 5 * pow2 (- 3)) \<le> round_binary64 ?x2"
    using x2 by (intro round_binary64_mono) (simp_all add: less_imp_le)
  moreover have "round_binary64 (of_int 5 * pow2 (- 3)) = of_int 5 * pow2 (- 3)"
    by (rule round_binary64_exact) simp_all
  moreover have "float_0_6 < of_int 5 * pow2 (- 3)" by (simp add: float_0_6_def pow2_def)
  ultimately have "round_binary64 ?x1 < round_binary64 ?x2" by linarith
  then show ?thesis unfolding s1 s2 by simp
qed

lemma similarity_same_text:
  assumes "lower py (title A) = lower py (title B)"
    and "lower py (join (u '' '') (steps A)) = lower py (join (u '' '') (steps B))"
    and "length (lower py (title B)) < 2 ^ 63"
    and "length (lower py (join (u '' '') (steps B))) < 2 ^ 63"
  shows "similarity py A B = Inr (Finite 1)"
proof -
  have t: "ratio (lower py (title A)) (lower py (title B)) = Inr (Finite 1)"
    using assms(1) ratio_self [OF assms(3)] by simp
  have s: "ratio (lower py (join (u '' '') (steps A))) (lower py (join (u '' '') (steps B)))
      = Inr (Finite 1)"
    using assms(2) ratio_self [OF assms(4)] by simp
  obtain v where "float_add (float_mul (Finite 1) (Finite float_0_6))
                 (float_mul (Finite 1) (Finite float_0_4)) = Finite v" "v = 1"
    using weighted_sum_bounds [of 1 1] by auto
  then show ?thesis using similarity_eq [OF t s] by simp
qed

lemma priority_value_order:
  "\<not> str_ge (priority_value CRITICAL) (priority_value NORMAL)"
  "\<not> str_ge (priority_value CRITICAL) (priority_value LOW)"
  "\<not> str_ge (priority_value LOW) (priority_value NORMAL)"
  "str_ge (priority_value NORMAL) (priority_value CRITICAL)"
  "str_ge (priority_value LOW) (priority_value CRITICAL)"
  "str_ge (priority_value NORMAL) (priority_value LOW)"
  "str_ge (priority_value p) (priority_value p)"
proof -
  show "str_ge (priority_value p) (priority_value p)"
    by (cases p) (simp_all add: u_def)
qed (simp_all add: u_def)

lemma format_2f_one: "format_2f (Finite 1) = u ''1.00''"
proof -
  have "round_half_even (of_int 100) = 100" by (rule round_half_even_of_int)
  then have "round_half_even 100 = 100" by simp
  then show ?thesis
    by (simp add: two_digits_def u_def digits.simps [of 1] digits.simps [of "Suc 0"])
qed

lemma similarity_critical_normal:
  "similarity ascii_library critical_case normal_case = Inr (Finite 1)"
proof (rule similarity_same_text)
  show "lower ascii_library (title critical_case) = lower ascii_library (title normal_case)"
    by (simp add: ascii_library_def ascii_lower_def critical_case_def normal_case_def u_def)
  show "lower ascii_library (join (u '' '') (steps critical_case))
      = lower ascii_library (join (u '' '') (steps normal_case))"
    by (simp add: critical_case_def normal_case_def)
  show "length (lower ascii_library (title normal_case)) < 2 ^ 63"
    by (simp add: ascii_library_def ascii_lower_def normal_case_def u_def)
  show "length (lower ascii_library (join (u '' '') (steps normal_case))) < 2 ^ 63"
    by (simp add: ascii_library_def ascii_lower_def critical_case_def normal_case_def u_def)
qed

text \<open>
  C2 at the pair (CRITICAL, NORMAL): the two cases score 1.0, which is above the
  threshold 0.8, and the recommendation keeps the case of priority NORMAL and sends the
  case of priority CRITICAL to review.
\<close>

theorem find_duplicates_keeps_normal_over_critical:
  "find_duplicates ascii_library [critical_case, normal_case] (Finite float_0_8)
     = Inr \<lparr>duplicates = [\<lparr>testcase1 = 5, testcase2 = 6, similarity_score = Finite 1\<rparr>],
            threshold_used = Finite float_0_8,
            dup_recommendations =
              [\<lparr>rec_type = u ''duplicate'', severity = u ''medium'',
                rec_message = u ''Tests Login and login look similar (1.00)'',
                action = u ''Keep login, review Login for merge/removal''\<rparr>]\<rparr>
   \<and> priority critical_case = CRITICAL \<and> priority normal_case = NORMAL"
proof -
  have ge: "float_ge (Finite 1) (Finite float_0_8)" by (simp add: float_0_8_def)
  have rec: "duplicate_recommendation critical_case normal_case (Finite 1)
      = \<lparr>rec_type = u ''duplicate'', severity = u ''medium'',
          rec_message = u ''Tests Login and login look similar (1.00)'',
          action = u ''Keep login, review Login for merge/removal''\<rparr>"
    unfolding duplicate_recommendation_def Let_def format_2f_one
    using priority_value_order(1)
    by (simp add: critical_case_def normal_case_def) (simp add: u_def)
  have ids: "tc_id critical_case = 5" "tc_id normal_case = 6"
    by (simp_all add: critical_case_def normal_case_def)
  have inner: "find_duplicates_inner ascii_library (Finite float_0_8) critical_case [normal_case] ([], [])
      = Inr ([\<lparr>testcase1 = 5, testcase2 = 6, similarity_score = Finite 1\<rparr>],
             [duplicate_recommendation critical_case normal_case (Finite 1)])"
    using ge by (simp add: similarity_critical_normal ids)
  have "find_duplicates_outer ascii_library (Finite float_0_8) [critical_case, normal_case] ([], [])
      = Inr ([\<lparr>testcase1 = 5, testcase2 = 6, similarity_score = Finite 1\<rparr>],
             [duplicate_recommendation critical_case normal_case (Finite 1)])"
    by (subst find_duplicates_outer.simps, subst inner, simp)
  then show ?thesis
    by (simp add: find_duplicates_def rec) (simp add: critical_case_def normal_case_def)
qed

lemma fallback_count:
  "sum_list (map test_count (map (\<lambda>tc. fallback_file py tc input_data) tcs)) = int (length tcs)"
  by (induction tcs) (simp_all add: fallback_file_def Let_def)

lemma execute_body_fallback:
  assumes "\<forall>prompt. \<exists>e. llm prompt = Inl e \<and> is_exception e"
    and "ui_testcases input_data \<noteq> []" and "ui_priority_filter input_data = None"
    and "map_of (ui_viewport input_data) (u ''width'') = Some w"
    and "map_of (ui_viewport input_data) (u ''height'') = Some h"
  shows "execute_body py llm parse_response input_data =
           Inr \<lparr>success = True, error = None,
            generated_tests = map (\<lambda>tc. fallback_file py tc input_data) (ui_testcases input_data),
            total_tests = int (length (ui_testcases input_data)),
            out_framework = ui_framework input_data,
            out_browsers = ui_browsers input_data\<rparr>"
proof -
  let ?tcs = "ui_testcases input_data"
  have f: "filter_by_priority py ?tcs (ui_priority_filter input_data) = ?tcs"
    by (simp add: filter_by_priority_def assms(3))
  obtain prompt where p: "build_prompt py input_data ?tcs = Inr prompt"
    by (simp add: build_prompt_def assms(4,5) Let_def)
  obtain e where e: "llm prompt = Inl e" "is_exception e" using assms(1) by blast
  have g: "generate_files llm parse_response input_data prompt = Inr []"
    using e by (simp add: generate_files_def)
  show ?thesis
    using assms(2) fallback_count [of py input_data ?tcs]
    by (simp add: execute_body_def f Let_def p g)
qed

lemma execute_propagates:
  assumes "\<forall>prompt. llm prompt = Inl e" and "\<not> is_exception e"
    and "ui_testcases input_data \<noteq> []" and "ui_priority_filter input_data = None"
    and "map_of (ui_viewport input_data) (u ''width'') = Some w"
    and "map_of (ui_viewport input_data) (u ''height'') = Some h"
  shows "execute py llm parse_response input_data = Inl e"
proof -
  let ?tcs = "ui_testcases input_data"
  have f: "filter_by_priority py ?tcs (ui_priority_filter input_data) = ?tcs"
    by (simp add: filter_by_priority_def assms(4))
  obtain prompt where p: "build_prompt py input_data ?tcs = Inr prompt"
    by (simp add: build_prompt_def assms(5,6) Let_def)
  have g: "generate_files llm parse_response input_data prompt = Inl e"
    using assms(1,2) by (simp add: generate_files_def)
  have "execute_body py llm parse_response input_data = Inl e"
    using assms(3) by (simp add: execute_body_def f Let_def p g)
  then show ?thesis using assms(2) by (simp add: execute_def)
qed

text \<open>
  C1, as the code has it: when every call of the LLM client raises an exception derived
  from \<open>Exception\<close>, an input with at least one test case, no priority filter and a
  viewport that has the keys \<open>width\<close> and \<open>height\<close> gets an output with \<open>success = True\<close> and
  no error, one generated file for each input test case, each with \<open>test_count = 1\<close>.
\<close>

theorem execute_llm_failure_fallback:
  assumes "\<forall>prompt. \<exists>e. llm prompt = Inl e \<and> is_exception e"
    and "ui_testcases input_data \<noteq> []" and "ui_priority_filter input_data = None"
    and "map_of (ui_viewport input_data) (u ''width'') \<noteq> None"
    and "map_of (ui_viewport input_data) (u ''height'') \<noteq> None"
  shows "\<exists>out. execute py llm parse_response input_data = Inr out
       \<and> success out \<and> error out = None
       \<and> length (generated_tests out) = length (ui_testcases input_data)
       \<and> (\<forall>f \<in> set (generated_tests out). test_count f = 1)
       \<and> generated_tests out = map (\<lambda>tc. fallback_file py tc input_data) (ui_testcases input_data)
       \<and> total_tests out = int (length (ui_testcases input_data))"
proof -
  obtain w h where "map_of (ui_viewport input_data) (u ''width'') = Some w"
      "map_of (ui_viewport input_data) (u ''height'') = Some h"
    using assms(4,5) by auto
  then have "execute_body py llm parse_response input_data =
           Inr \<lparr>success = True, error = None,
            generated_tests = map (\<lambda>tc. fallback_file py tc input_data) (ui_testcases input_data),
            total_tests = int (length (ui_testcases input_data)),
            out_framework = ui_framework input_data,
            out_browsers = ui_browsers input_data\<rparr>"
    using assms(1-3) by (intro execute_body_fallback)
  then show ?thesis by (simp add: execute_def fallback_file_def Let_def)
qed

theorem execute_llm_failure_fallback_witness:
  "(\<forall>prompt. \<exists>e. failing_llm prompt = Inl e \<and> is_exception e)
   \<and> ui_testcases default_ui_input \<noteq> [] \<and> ui_priority_filter default_ui_input = None
   \<and> map_of (ui_viewport default_ui_input) (u ''width'') \<noteq> None
   \<and> map_of (ui_viewport default_ui_input) (u ''height'') \<noteq> None
   \<and> (\<exists>out. execute ascii_library failing_llm no_parse default_ui_input = Inr out
         \<and> success out \<and> length (generated_tests out) = 2
         \<and> map test_count (generated_tests out) = [1, 1])"
proof -
  have h1: "\<forall>prompt. \<exists>e. failing_llm prompt = Inl e \<and> is_exception e"
    by (simp add: failing_llm_def)
  have h2: "ui_testcases default_ui_input \<noteq> []" by (simp add: default_ui_input_def)
  have h3: "ui_priority_filter default_ui_input = None" by (simp add: default_ui_input_def)
  have h4: "map_of (ui_viewport default_ui_input) (u ''width'') \<noteq> None"
    by (simp add: default_ui_input_def)
  have h5: "map_of (ui_viewport default_ui_input) (u ''height'') \<noteq> None"
    by (simp add: default_ui_input_def u_def)
  obtain out where r: "execute ascii_library failing_llm no_parse default_ui_input = Inr out"
    "success out" "length (generated_tests out) = length (ui_testcases default_ui_input)"
    "\<forall>f \<in> set (generated_tests out). test_count f = 1"
    using execute_llm_failure_fallback [OF h1 h2 h3 h4 h5, of ascii_library no_parse] by auto
  have l: "length (generated_tests out) = 2" using r(3) by (simp add: default_ui_input_def)
  then obtain f1 f2 where g: "generated_tests out = [f1, f2]"
    by (auto simp: length_Suc_conv numeral_2_eq_2)
  have "map test_count (generated_tests out) = [1, 1]" using r(4) by (simp add: g)
  then show ?thesis using h1 h2 h3 h4 h5 r(1,2) l by simp
qed

text \<open>
  The claim fails at two inputs that have test cases and no priority filter. Without the
  viewport keys the prompt cannot be built: the KeyError reaches the outer handler, and
  the output has \<open>success = False\<close> and no generated file, although the LLM client fails on
  every call. And when the call of the LLM client raises \<open>asyncio.CancelledError\<close>, which
  neither handler catches, \<open>execute\<close> raises it and returns no output.
\<close>

theorem execute_empty_viewport_counterexample:
  "ui_testcases empty_viewport_input \<noteq> [] \<and> ui_priority_filter empty_viewport_input = None
   \<and> execute ascii_library failing_llm no_parse empty_viewport_input
       = Inr \<lparr>success = False, error = Some (StrOf (KeyError (u ''width''))),
            generated_tests = [], total_tests = 0, out_framework = u ''playwright'',
            out_browsers = []\<rparr>
   \<and> ui_testcases default_ui_input \<noteq> [] \<and> ui_priority_filter default_ui_input = None
   \<and> execute ascii_library cancelled_llm no_parse default_ui_input = Inl CancelledError"
proof -
  have a: "execute ascii_library failing_llm no_parse empty_viewport_input
       = Inr \<lparr>success = False, error = Some (StrOf (KeyError (u ''width''))),
            generated_tests = [], total_tests = 0, out_framework = u ''playwright'',
            out_browsers = []\<rparr>"
    by (simp add: execute_def execute_body_def filter_by_priority_def build_prompt_def
        empty_viewport_input_def default_ui_input_def Let_def)
  have b: "execute ascii_library cancelled_llm no_parse default_ui_input = Inl CancelledError"
    by (rule execute_propagates [where w = 1920 and h = 1080])
       (simp_all add: cancelled_llm_def default_ui_input_def u_def)
  show ?thesis using a b by (simp add: empty_viewport_input_def default_ui_input_def)
qed











end
